theory Spec2Isabelle
  imports Complex_Main
begin

section \<open>Text: the string operations the pipeline uses\<close>

text \<open>
  A Python \<open>str\<close> is modelled as a \<open>string\<close> whose characters are the code points
  below 256. \<open>isspace\<close> lists the code points below 256 for which \<open>str.isspace\<close> holds;
  \<open>str.strip()\<close> removes them from both ends.
\<close>

definition isspace :: "char \<Rightarrow> bool" where
  "isspace c = (c \<in> {CHR 0x09, CHR 0x0A, CHR 0x0B, CHR 0x0C, CHR 0x0D,
                      CHR 0x1C, CHR 0x1D, CHR 0x1E, CHR 0x1F, CHR 0x20, CHR 0x85, CHR 0xA0})"

definition strip :: "string \<Rightarrow> string" where
  "strip s = rev (dropWhile isspace (rev (dropWhile isspace s)))"

text \<open>\<open>str.lower()\<close> on code points below 256: A-Z and the Latin-1 capitals move up by 32.\<close>

definition lower_char :: "char \<Rightarrow> char" where
  "lower_char c =
     (let n = (of_char c :: nat)
      in if (65 \<le> n \<and> n \<le> 90) \<or> (192 \<le> n \<and> n \<le> 222 \<and> n \<noteq> 215)
         then char_of (n + 32) else c)"

definition str_lower :: "string \<Rightarrow> string" where
  "str_lower s = map lower_char s"

text \<open>\<open>s.split(sep)\<close> for a one-character separator: \<open>''.split(',') == ['']\<close>.\<close>

fun str_split :: "char \<Rightarrow> string \<Rightarrow> string list" where
  "str_split sep [] = [[]]"
| "str_split sep (c # cs) =
     (if c = sep then [] # str_split sep cs
      else (case str_split sep cs of w # ws \<Rightarrow> (c # w) # ws | [] \<Rightarrow> [[c]]))"

text \<open>
  The characters that are operators in a Python regular expression (\<open>0x5C\<close> is the
  backslash). A pattern without them is a literal.
\<close>

definition regex_meta :: "char \<Rightarrow> bool" where
  "regex_meta c = (c \<in> set ''.^$*+?{}[]|()'' \<or> c = CHR 0x5C)"

definition regex_literal :: "string \<Rightarrow> bool" where
  "regex_literal p = (\<not> list_ex regex_meta p)"

text \<open>
  \<open>re.compile(p, re.IGNORECASE).search(s)\<close> for a pattern whose only operator is the dot:
  an ordinary character matches itself up to case, a dot matches any character but the
  newline, and the search tries every start position from the left.
\<close>

definition dot_pattern :: "string \<Rightarrow> bool" where
  "dot_pattern p = (\<not> list_ex (\<lambda>c. regex_meta c \<and> c \<noteq> CHR ''.'') p)"

fun match_here :: "string \<Rightarrow> string \<Rightarrow> bool" where
  "match_here [] s = True"
| "match_here (p # ps) [] = False"
| "match_here (p # ps) (c # cs) =
     ((if p = CHR ''.'' then c \<noteq> CHR 0x0A else lower_char p = lower_char c)
      \<and> match_here ps cs)"

fun re_search :: "string \<Rightarrow> string \<Rightarrow> bool" where
  "re_search p [] = match_here p []"
| "re_search p (c # cs) = (match_here p (c # cs) \<or> re_search p cs)"


section \<open>Input records\<close>

text \<open>
  One row of the data frame. \<open>announced_year\<close> is \<open>row['Announced Date'].dt.year\<close>:
  \<open>None\<close> for a date that did not parse (NaT). \<open>investor_names\<close> is the column after
  \<open>fillna('')\<close>. The money column holds whatever the CSV reader produced: a missing value
  (\<open>None\<close> or NaN, for which \<open>pd.isna\<close> holds), a number, a string, or some other object.
  The type \<open>'f\<close> stands for Python's \<open>float\<close>; only its \<open>0\<close> and \<open>+\<close> are used.
\<close>

datatype 'f cell = Missing | Number 'f | Text string | Other

text \<open>
  A column read through \<open>row.get(col, 'n/a')\<close> and formatted in an f-string: the default
  applies when the column is absent; a NaN value is printed as \<open>nan\<close>.
\<close>

datatype field = NoColumn | NaN | Value string

record 'f row =
  announced_year :: "int option"
  investor_names :: string
  money_raised :: "'f cell"
  transaction_name :: field
  organization_name :: field
  funding_stage :: field

definition fmt :: "field \<Rightarrow> string" where
  "fmt v = (case v of NoColumn \<Rightarrow> ''n/a'' | NaN \<Rightarrow> ''nan'' | Value s \<Rightarrow> s)"


section \<open>create_co_investment_pairs\<close>

text \<open>The two nested index loops of the source, \<open>i\<close> over the list and \<open>j\<close> above \<open>i\<close>.\<close>

definition create_co_investment_pairs :: "string list \<Rightarrow> (string \<times> string) list" where
  "create_co_investment_pairs investors =
     concat (map (\<lambda>i. concat (map (\<lambda>j.
         (let a = strip (investors ! i); b = strip (investors ! j)
          in if a \<noteq> [] \<and> b \<noteq> [] then [(a, b)] else []))
       [i + 1 ..< length investors]))
     [0 ..< length investors])"

text \<open>The combinations of a list in list order, for comparison with the loops.\<close>

fun combinations2 :: "'a list \<Rightarrow> ('a \<times> 'a) list" where
  "combinations2 [] = []"
| "combinations2 (x # xs) = map (Pair x) xs @ combinations2 xs"


section \<open>The graph: networkx.Graph as an ordered adjacency structure\<close>

text \<open>
  \<open>nx.Graph\<close> keeps a dict of dicts: node to neighbours, both in insertion order. It is
  modelled as an association list from a node to the list of its neighbours.
\<close>

type_synonym 'n graph = "('n \<times> 'n list) list"

definition nodes_of :: "'n graph \<Rightarrow> 'n list" where
  "nodes_of g = map fst g"

definition add_node :: "'n \<Rightarrow> 'n graph \<Rightarrow> 'n graph" where
  "add_node n g = (if n \<in> set (nodes_of g) then g else g @ [(n, [])])"

text \<open>\<open>adj[u][v] = {}\<close>: a new key goes last, an existing key keeps its place.\<close>

definition set_nbr :: "'n \<Rightarrow> 'n \<Rightarrow> 'n graph \<Rightarrow> 'n graph" where
  "set_nbr u v g =
     map (\<lambda>(n, ns). if n = u then (n, if v \<in> set ns then ns else ns @ [v]) else (n, ns)) g"

definition add_edge :: "'n graph \<Rightarrow> 'n \<times> 'n \<Rightarrow> 'n graph" where
  "add_edge g e = (case e of (u, v) \<Rightarrow> set_nbr v u (set_nbr u v (add_node v (add_node u g))))"

definition add_edges_from :: "'n graph \<Rightarrow> ('n \<times> 'n) list \<Rightarrow> 'n graph" where
  "add_edges_from g es = foldl add_edge g es"

text \<open>\<open>G.degree()\<close>: the number of neighbours, a self-loop counting twice.\<close>

definition degree_of :: "'n \<times> 'n list \<Rightarrow> int" where
  "degree_of e = (case e of (n, ns) \<Rightarrow> int (length ns) + (if n \<in> set ns then 1 else 0))"

definition degree_view :: "'n graph \<Rightarrow> ('n \<times> int) list" where
  "degree_view g = map (\<lambda>e. (fst e, degree_of e)) g"

definition degree :: "'n graph \<Rightarrow> 'n \<Rightarrow> int" where
  "degree g n = (case map_of g n of None \<Rightarrow> 0 | Some ns \<Rightarrow> degree_of (n, ns))"

text \<open>
  \<open>G.remove_nodes_from\<close>: a node that is not in the graph is skipped; otherwise the node
  is deleted from the neighbour dict of each of its neighbours, then its own entry goes.
\<close>

definition remove_node :: "'n graph \<Rightarrow> 'n \<Rightarrow> 'n graph" where
  "remove_node g n =
     (case map_of g n of
        None \<Rightarrow> g
      | Some nbrs \<Rightarrow>
          filter (\<lambda>e. fst e \<noteq> n)
            (map (\<lambda>(m, ns). (m, if m \<in> set nbrs then removeAll n ns else ns)) g))"

definition remove_nodes_from :: "'n graph \<Rightarrow> 'n list \<Rightarrow> 'n graph" where
  "remove_nodes_from g ns = foldl remove_node g ns"

text \<open>\<open>G.edges()\<close>: each node's neighbours in order, skipping the nodes already visited.\<close>

fun edges_from :: "'n list \<Rightarrow> 'n graph \<Rightarrow> ('n \<times> 'n) list" where
  "edges_from seen [] = []"
| "edges_from seen ((n, nbrs) # g) =
     map (Pair n) (filter (\<lambda>v. v \<notin> set seen) nbrs) @ edges_from (n # seen) g"

definition edges_of :: "'n graph \<Rightarrow> ('n \<times> 'n) list" where
  "edges_of g = edges_from [] g"

definition unordered :: "'n \<times> 'n \<Rightarrow> 'n set" where
  "unordered e = {fst e, snd e}"


section \<open>generate_network_figure\<close>

datatype error = TypeError | ReError

subsection \<open>Filtering the records\<close>

definition year_in_range :: "int \<Rightarrow> int \<Rightarrow> 'f row \<Rightarrow> bool" where
  "year_in_range start_year end_year r =
     (case announced_year r of None \<Rightarrow> False | Some y \<Rightarrow> start_year \<le> y \<and> y \<le> end_year)"

text \<open>
  \<open>Series.str.contains(pat, case=False, na=False)\<close>, with its default \<open>regex=True\<close>,
  compiles \<open>pat\<close> as a regular expression before it looks at any row, and keeps the rows
  that the compiled pattern finds a match in. \<open>None\<close> raises TypeError. A pattern of
  ordinary characters and dots is searched by \<open>re_search\<close>; for a pattern with other
  operators the parameter \<open>re_compile\<close> stands for Python's regular-expression engine: it
  gives the search function of the compiled pattern, or \<open>None\<close> where compiling raises
  \<open>re.error\<close>.
\<close>

definition str_contains ::
  "(string \<Rightarrow> (string \<Rightarrow> bool) option) \<Rightarrow> string option \<Rightarrow> 'f row list
     \<Rightarrow> error + 'f row list" where
  "str_contains re_compile pat df =
     (case pat of
        None \<Rightarrow> Inl TypeError
      | Some p \<Rightarrow>
          (case (if dot_pattern p then Some (re_search p) else re_compile p) of
             None \<Rightarrow> Inl ReError
           | Some found \<Rightarrow> Inr (filter (\<lambda>r. found (investor_names r)) df)))"

definition record_filter ::
  "(string \<Rightarrow> (string \<Rightarrow> bool) option) \<Rightarrow> 'f row list \<Rightarrow> int \<Rightarrow> int \<Rightarrow> string option
     \<Rightarrow> error + 'f row list" where
  "record_filter re_compile df start_year end_year investor_filter =
     (let df_filtered = filter (year_in_range start_year end_year) df
      in if investor_filter \<noteq> Some ''All''
         then str_contains re_compile investor_filter df_filtered
         else Inr df_filtered)"

subsection \<open>Aggregating the investor information\<close>

record 'f investor_stats =
  rounds :: int
  money :: 'f
  transactions :: "string list"

type_synonym 'f investor_info = "string \<rightharpoonup> 'f investor_stats"

definition isna :: "'f cell \<Rightarrow> bool" where
  "isna val = (case val of Missing \<Rightarrow> True | _ \<Rightarrow> False)"

text \<open>
  The money of a row. \<open>pyfloat\<close> is Python's \<open>float\<close> on strings, \<open>None\<close> where it raises
  ValueError; on an object that is neither a number nor a string it raises TypeError.
  Both exceptions are caught and give \<open>0.0\<close>.
\<close>

definition money_of :: "(string \<Rightarrow> 'f option) \<Rightarrow> 'f::zero cell \<Rightarrow> 'f" where
  "money_of pyfloat val =
     (if isna val \<or>
         (case val of Text s \<Rightarrow> str_lower (strip s) \<in> set [''n/a'', ''na'', ''''] | _ \<Rightarrow> False)
      then 0
      else (case val of
              Number x \<Rightarrow> x
            | Text s \<Rightarrow> (case pyfloat s of Some x \<Rightarrow> x | None \<Rightarrow> 0)
            | _ \<Rightarrow> 0))"

definition investors_of :: "'f row \<Rightarrow> string list" where
  "investors_of r = map strip (str_split CHR '','' (investor_names r))"

definition transaction_detail :: "'f row \<Rightarrow> string" where
  "transaction_detail r =
     fmt (transaction_name r) @ '' | '' @ fmt (organization_name r) @ '' | '' @
     fmt (funding_stage r)"

definition add_investor ::
  "'f::{zero,plus} \<Rightarrow> string \<Rightarrow> 'f investor_info \<Rightarrow> string \<Rightarrow> 'f investor_info" where
  "add_investor m detail investor_info investor =
     (let d = (case investor_info investor of
                 None \<Rightarrow> \<lparr>rounds = 0, money = 0, transactions = []\<rparr>
               | Some d \<Rightarrow> d)
      in investor_info(investor \<mapsto>
           \<lparr>rounds = rounds d + 1, money = money d + m,
            transactions = transactions d @ [detail]\<rparr>))"

definition aggregate_row ::
  "(string \<Rightarrow> 'f option) \<Rightarrow> 'f::{zero,plus} investor_info \<Rightarrow> 'f row \<Rightarrow> 'f investor_info" where
  "aggregate_row pyfloat investor_info r =
     (let m = money_of pyfloat (money_raised r)
      in if investor_names r \<noteq> []
         then foldl (add_investor m (transaction_detail r)) investor_info (investors_of r)
         else investor_info)"

definition aggregate ::
  "(string \<Rightarrow> 'f option) \<Rightarrow> 'f::{zero,plus} row list \<Rightarrow> 'f investor_info" where
  "aggregate pyfloat df_filtered = foldl (aggregate_row pyfloat) Map.empty df_filtered"

subsection \<open>Building and pruning the graph\<close>

definition row_pairs :: "'f row \<Rightarrow> (string \<times> string) list" where
  "row_pairs r =
     (if investor_names r \<noteq> [] then create_co_investment_pairs (investors_of r) else [])"

definition co_investments :: "'f row list \<Rightarrow> (string \<times> string) list" where
  "co_investments df_filtered = concat (map row_pairs df_filtered)"

definition build_graph :: "'f row list \<Rightarrow> string graph" where
  "build_graph df_filtered = add_edges_from [] (co_investments df_filtered)"

definition remove_low_degree :: "'n graph \<Rightarrow> int \<Rightarrow> 'n graph" where
  "remove_low_degree g min_degree =
     remove_nodes_from g (map fst (filter (\<lambda>(n, deg). deg < min_degree) (degree_view g)))"

definition rounds_or :: "int \<Rightarrow> 'f investor_info \<Rightarrow> string \<Rightarrow> int" where
  "rounds_or dflt investor_info n =
     (case investor_info n of None \<Rightarrow> dflt | Some d \<Rightarrow> rounds d)"

definition remove_low_rounds :: "'f investor_info \<Rightarrow> string graph \<Rightarrow> int \<Rightarrow> string graph" where
  "remove_low_rounds investor_info g min_rounds =
     remove_nodes_from g (filter (\<lambda>n. rounds_or 0 investor_info n < min_rounds) (nodes_of g))"

subsection \<open>Hover information and node sizes\<close>

text \<open>\<open>list(dict.fromkeys(xs))\<close>: the first occurrence of each element, in order.\<close>

definition dict_fromkeys :: "'a list \<Rightarrow> 'a list" where
  "dict_fromkeys xs = foldl (\<lambda>acc x. if x \<in> set acc then acc else acc @ [x]) [] xs"

definition hover_transactions :: "string list \<Rightarrow> string list" where
  "hover_transactions ts =
     (let t = dict_fromkeys ts in if length t > 3 then take 3 t @ [''...''] else t)"

record 'f hover_details =
  hover_rounds :: int
  hover_money :: 'f
  hover_log :: "string list"

record 'f node_view =
  node_name :: string
  co_investors :: int
  details :: "'f hover_details option"
  node_size :: int

definition hover_of :: "'f investor_info \<Rightarrow> string \<Rightarrow> 'f hover_details option" where
  "hover_of investor_info n =
     (case investor_info n of
        None \<Rightarrow> None
      | Some d \<Rightarrow> Some \<lparr>hover_rounds = rounds d, hover_money = money d,
                       hover_log = hover_transactions (transactions d)\<rparr>)"

definition view_node :: "'f investor_info \<Rightarrow> string graph \<Rightarrow> string \<Rightarrow> 'f node_view" where
  "view_node investor_info g n =
     \<lparr>node_name = n, co_investors = degree g n, details = hover_of investor_info n,
      node_size = 5 + 2 * rounds_or 1 investor_info n\<rparr>"

subsection \<open>The figure\<close>

text \<open>
  The result of the pipeline. \<open>EmptyFigure\<close> is \<open>go.Figure()\<close>, with no title; \<open>TitleOnly\<close>
  is an empty figure whose layout has a title; \<open>Network\<close> holds the nodes with their
  annotations and the edges of the pruned graph. The coordinates that
  \<open>nx.spring_layout\<close> assigns are floating-point and are left out, as are the title and
  the styling of the network figure: an edge is given by the names of its end points.
\<close>

datatype 'f figure =
  EmptyFigure
| TitleOnly string
| Network "'f node_view list" "(string \<times> string) list"

definition figure_title :: "'f figure \<Rightarrow> string option" where
  "figure_title fig = (case fig of TitleOnly t \<Rightarrow> Some t | _ \<Rightarrow> None)"

definition generate_network_figure ::
  "(string \<Rightarrow> (string \<Rightarrow> bool) option) \<Rightarrow> (string \<Rightarrow> 'f option) \<Rightarrow> 'f::{zero,plus} row list
     \<Rightarrow> int \<Rightarrow> int \<Rightarrow> int \<Rightarrow> int \<Rightarrow> string option \<Rightarrow> error + 'f figure" where
  "generate_network_figure re_compile pyfloat df start_year end_year min_degree min_rounds
       investor_filter =
     (case record_filter re_compile df start_year end_year investor_filter of
        Inl err \<Rightarrow> Inl err
      | Inr df_filtered \<Rightarrow>
          (let investor_info = aggregate pyfloat df_filtered;
               g0 = build_graph df_filtered;
               g1 = remove_low_degree g0 min_degree;
               g = remove_low_rounds investor_info g1 min_rounds
           in if length (nodes_of g) = 0
              then Inr (TitleOnly
                ''No investors meet the minimum requirements for this time period.'')
              else Inr (Network (map (view_node investor_info g) (nodes_of g)) (edges_of g))))"

section \<open>update_graph\<close>

text \<open>
  The callback. The data frame, a module-level global in the source, is a parameter;
  \<open>n_clicks\<close> is not used by the source and is left out.
\<close>

definition update_graph ::
  "(string \<Rightarrow> (string \<Rightarrow> bool) option) \<Rightarrow> (string \<Rightarrow> 'f option) \<Rightarrow> 'f::{zero,plus} row list
     \<Rightarrow> string option \<Rightarrow> int option \<Rightarrow> int option \<Rightarrow> int option \<Rightarrow> int option
     \<Rightarrow> error + 'f figure" where
  "update_graph re_compile pyfloat df investor_perspective start_year end_year min_degree
       min_rounds =
     (case (start_year, end_year, min_degree, min_rounds) of
        (Some s, Some e, Some d, Some r) \<Rightarrow>
          (if s > e
           then generate_network_figure re_compile pyfloat df e s d r investor_perspective
           else generate_network_figure re_compile pyfloat df s e d r investor_perspective)
      | _ \<Rightarrow> Inr EmptyFigure)"


section \<open>Notions used to state the properties\<close>

subsection \<open>Graphs\<close>

text \<open>The neighbours of a node, as a set; empty for a node that is not in the graph.\<close>

definition nbrs :: "'n graph \<Rightarrow> 'n \<Rightarrow> 'n set" where
  "nbrs g u = (case map_of g u of None \<Rightarrow> {} | Some ns \<Rightarrow> set ns)"

text \<open>
  Invariants of a graph made by \<open>add_edges_from\<close>: no neighbour is listed twice, and
  adjacency is symmetric.
\<close>

definition nbrs_distinct :: "'n graph \<Rightarrow> bool" where
  "nbrs_distinct g = list_all (\<lambda>e. distinct (snd e)) g"

definition symmetric :: "'n graph \<Rightarrow> bool" where
  "symmetric g = (\<forall>e \<in> set g. \<forall>v \<in> set (snd e). fst e \<in> nbrs g v)"

text \<open>The subgraph on the nodes that satisfy \<open>keep\<close>, order unchanged.\<close>

definition induced :: "('n \<Rightarrow> bool) \<Rightarrow> 'n graph \<Rightarrow> 'n graph" where
  "induced keep g = map (\<lambda>e. (fst e, filter keep (snd e))) (filter (\<lambda>e. keep (fst e)) g)"

subsection \<open>Aggregation\<close>

text \<open>
  How often the aggregation loop meets the name \<open>x\<close> in the record \<open>r\<close>: the number of
  its occurrences in the trimmed list, and none when the investor field is empty.
\<close>

definition occurrences :: "'f row \<Rightarrow> string \<Rightarrow> nat" where
  "occurrences r x = (if investor_names r \<noteq> [] then count_list (investors_of r) x else 0)"

text \<open>The money and the transaction detail that the records add to \<open>x\<close>, in record order.\<close>

definition contributions ::
  "(string \<Rightarrow> 'f option) \<Rightarrow> 'f::zero row list \<Rightarrow> string \<Rightarrow> ('f \<times> string) list" where
  "contributions pyfloat df x =
     concat (map (\<lambda>r. replicate (occurrences r x)
                         (money_of pyfloat (money_raised r), transaction_detail r)) df)"

text \<open>One step of \<open>add_investor\<close>, seen from the entry of the investor it updates.\<close>

definition bump ::
  "'f::{zero,plus} investor_stats option \<Rightarrow> 'f \<times> string \<Rightarrow> 'f investor_stats option" where
  "bump e c =
     (let d = (case e of None \<Rightarrow> \<lparr>rounds = 0, money = 0, transactions = []\<rparr> | Some d \<Rightarrow> d)
      in Some \<lparr>rounds = rounds d + 1, money = money d + fst c,
               transactions = transactions d @ [snd c]\<rparr>)"

subsection \<open>Case-insensitive substrings\<close>

text \<open>
  What the specification asks of the investor filter: the name occurs in the field up to
  case. Both sides are lowered, then the field is searched for the name.
\<close>

fun starts_with :: "string \<Rightarrow> string \<Rightarrow> bool" where
  "starts_with [] s = True"
| "starts_with (p # ps) [] = False"
| "starts_with (p # ps) (c # cs) = (p = c \<and> starts_with ps cs)"

fun substring :: "string \<Rightarrow> string \<Rightarrow> bool" where
  "substring p [] = (p = [])"
| "substring p (c # cs) = (starts_with p (c # cs) \<or> substring p cs)"

definition ci_substring :: "string \<Rightarrow> string \<Rightarrow> bool" where
  "ci_substring p s = substring (str_lower p) (str_lower s)"

subsection \<open>Deduplication in first-seen order\<close>

text \<open>
  What the specification asks of the hover log: each element once, at the place of its
  first occurrence. \<open>dict_fromkeys\<close> is compared with it.
\<close>

fun first_seen :: "'a list \<Rightarrow> 'a list" where
  "first_seen [] = []"
| "first_seen (x # xs) = x # filter (\<lambda>y. y \<noteq> x) (first_seen xs)"

subsection \<open>Concrete inputs\<close>

text \<open>
  Records for the examples: a record of 2021 with the given investor field and money
  value, the same with another year, and the five amounts of the money example.
\<close>

definition sample_row :: "string \<Rightarrow> real cell \<Rightarrow> real row" where
  "sample_row names val =
     \<lparr>announced_year = Some 2021, investor_names = names, money_raised = val,
      transaction_name = Value ''Seed'', organization_name = Value ''Acme'',
      funding_stage = NoColumn\<rparr>"

definition year_row :: "int option \<Rightarrow> string \<Rightarrow> real row" where
  "year_row y names = (sample_row names Missing)\<lparr>announced_year := y\<rparr>"

definition money_example :: "real cell list" where
  "money_example = [Number 100, Text ''n/a'', Text '''', Missing, Text ''50'']"

text \<open>
  An instance of the \<open>pyfloat\<close> parameter for the examples: the value of a non-empty string
  of decimal digits, as \<open>float\<close> gives it, and \<open>None\<close> for any other string. Python's
  \<open>float\<close> accepts more strings; the examples use it on digit strings and on words only.
\<close>

definition digit_of :: "char \<Rightarrow> nat option" where
  "digit_of c =
     (let n = (of_char c :: nat) in if 48 \<le> n \<and> n \<le> 57 then Some (n - 48) else None)"

definition float_of_digits :: "string \<Rightarrow> real option" where
  "float_of_digits s =
     (if s \<noteq> [] \<and> list_all (\<lambda>c. digit_of c \<noteq> None) s
      then Some (real (foldl (\<lambda>n c. 10 * n + the (digit_of c)) 0 s))
      else None)"


section \<open>The pair generator\<close>

lemma upt_shift: "[Suc i ..< Suc n] = map Suc [i ..< n]"
  by (simp add: map_Suc_upt)

lemma index_loops_Cons:
  "concat (map (\<lambda>i. concat (map (\<lambda>j. f ((x # xs) ! i) ((x # xs) ! j)) [i + 1 ..< length (x # xs)]))
       [0 ..< length (x # xs)])
   = concat (map (f x) xs)
     @ concat (map (\<lambda>i. concat (map (\<lambda>j. f (xs ! i) (xs ! j)) [i + 1 ..< length xs]))
         [0 ..< length xs])"
proof -
  let ?n = "length xs"
  have outer: "[0 ..< length (x # xs)] = 0 # map Suc [0 ..< ?n]"
    by (simp add: upt_conv_Cons map_Suc_upt del: upt_Suc)
  have inner: "[Suc i + 1 ..< length (x # xs)] = map Suc [i + 1 ..< ?n]" for i
    by (simp add: map_Suc_upt)
  have first: "concat (map (\<lambda>j. f ((x # xs) ! 0) ((x # xs) ! j)) [0 + 1 ..< length (x # xs)])
             = concat (map (f x) xs)"
  proof -
    have "[0 + 1 ..< length (x # xs)] = map Suc [0 ..< ?n]"
      by (simp add: map_Suc_upt)
    then have "map (\<lambda>j. f ((x # xs) ! 0) ((x # xs) ! j)) [0 + 1 ..< length (x # xs)]
             = map (f x) (map (\<lambda>j. xs ! j) [0 ..< ?n])"
      by (simp add: comp_def del: upt_Suc)
    then show ?thesis by (simp only: map_nth)
  qed
  have rest: "map (\<lambda>i. concat (map (\<lambda>j. f ((x # xs) ! i) ((x # xs) ! j)) [i + 1 ..< length (x # xs)]))
                (map Suc [0 ..< ?n])
            = map (\<lambda>i. concat (map (\<lambda>j. f (xs ! i) (xs ! j)) [i + 1 ..< ?n])) [0 ..< ?n]"
    by (simp only: map_map comp_def inner nth_Cons_Suc)
  show ?thesis
    by (simp only: outer list.map concat.simps first rest)
qed

lemma pairs_Cons:
  "create_co_investment_pairs (x # xs) =
     concat (map (\<lambda>y. if strip x \<noteq> [] \<and> strip y \<noteq> [] then [(strip x, strip y)] else []) xs)
     @ create_co_investment_pairs xs"
  unfolding create_co_investment_pairs_def Let_def
  by (rule index_loops_Cons)

lemma pairs_combinations:
  "create_co_investment_pairs xs = combinations2 (filter (\<lambda>s. s \<noteq> []) (map strip xs))"
proof (induction xs)
  case Nil
  show ?case by (simp add: create_co_investment_pairs_def)
next
  case (Cons x xs)
  have h: "concat (map (\<lambda>y. if strip x \<noteq> [] \<and> strip y \<noteq> [] then [(strip x, strip y)] else []) xs)
         = (if strip x \<noteq> [] then map (Pair (strip x)) (filter (\<lambda>s. s \<noteq> []) (map strip xs)) else [])"
    by (induction xs) auto
  show ?case by (simp add: pairs_Cons h Cons.IH)
qed

lemma length_combinations2: "length (combinations2 xs) = length xs * (length xs - 1) div 2"
proof (induction xs)
  case Nil
  show ?case by simp
next
  case (Cons x xs)
  have "length xs + length xs * (length xs - 1) div 2 = (length xs + 1) * length xs div 2"
    by (cases "length xs") (simp_all add: algebra_simps)
  with Cons show ?case by simp
qed

section \<open>Building the graph\<close>

lemma nodes_add_node:
  "nodes_of (add_node n g) = (if n \<in> set (nodes_of g) then nodes_of g else nodes_of g @ [n])"
  by (simp add: add_node_def nodes_of_def)

lemma nodes_set_nbr: "nodes_of (set_nbr u v g) = nodes_of g"
  by (induction g) (auto simp: set_nbr_def nodes_of_def)

lemma nodes_add_edge:
  "set (nodes_of (add_edge g (u, v))) = insert u (insert v (set (nodes_of g)))"
  by (auto simp: add_edge_def nodes_set_nbr nodes_add_node)

lemma distinct_add_edge: "distinct (nodes_of g) \<Longrightarrow> distinct (nodes_of (add_edge g e))"
  by (cases e) (auto simp: add_edge_def nodes_set_nbr nodes_add_node)

lemma nodes_add_edges_from:
  "set (nodes_of (add_edges_from g es)) = set (nodes_of g) \<union> fst ` set es \<union> snd ` set es"
proof (induction es arbitrary: g)
  case Nil
  show ?case by (simp add: add_edges_from_def)
next
  case (Cons e es)
  obtain u v where e: "e = (u, v)" by (cases e)
  have "add_edges_from g (e # es) = add_edges_from (add_edge g e) es"
    by (simp add: add_edges_from_def)
  then show ?case using Cons.IH[of "add_edge g e"] by (auto simp: e nodes_add_edge)
qed

lemma distinct_add_edges_from:
  "distinct (nodes_of g) \<Longrightarrow> distinct (nodes_of (add_edges_from g es))"
  unfolding add_edges_from_def
  by (induction es arbitrary: g) (simp_all add: distinct_add_edge)

lemma nbrs_distinct_add_node: "nbrs_distinct g \<Longrightarrow> nbrs_distinct (add_node n g)"
  by (simp add: nbrs_distinct_def add_node_def)

lemma nbrs_distinct_set_nbr: "nbrs_distinct g \<Longrightarrow> nbrs_distinct (set_nbr u v g)"
  by (induction g) (auto simp: nbrs_distinct_def set_nbr_def)

lemma nbrs_distinct_add_edge: "nbrs_distinct g \<Longrightarrow> nbrs_distinct (add_edge g e)"
  by (cases e) (simp add: add_edge_def nbrs_distinct_set_nbr nbrs_distinct_add_node)

lemma nbrs_distinct_add_edges_from:
  "nbrs_distinct g \<Longrightarrow> nbrs_distinct (add_edges_from g es)"
  unfolding add_edges_from_def
  by (induction es arbitrary: g) (simp_all add: nbrs_distinct_add_edge)

lemma map_of_set_nbr:
  "map_of (set_nbr u v g) w =
     (if w = u then map_option (\<lambda>ns. if v \<in> set ns then ns else ns @ [v]) (map_of g u)
      else map_of g w)"
  by (induction g) (auto simp: set_nbr_def)

lemma map_of_add_node:
  "map_of (add_node n g) w = (if w = n \<and> n \<notin> set (nodes_of g) then Some [] else map_of g w)"
proof (cases "n \<in> set (nodes_of g)")
  case True
  then show ?thesis by (simp add: add_node_def)
next
  case False
  then have "map_of g n = None" by (simp add: nodes_of_def map_of_eq_None_iff)
  with False show ?thesis by (simp add: add_node_def map_add_def split: option.splits)
qed

lemma nbrs_set_nbr:
  "u \<in> set (nodes_of g) \<Longrightarrow> nbrs (set_nbr u v g) w = (if w = u then insert v (nbrs g u) else nbrs g w)"
  by (auto simp: nbrs_def map_of_set_nbr nodes_of_def map_of_eq_None_iff split: option.splits)

lemma nbrs_add_node: "nbrs (add_node n g) w = nbrs g w"
  by (simp add: nbrs_def map_of_add_node nodes_of_def map_of_eq_None_iff[symmetric])

lemma nbrs_add_edge:
  "nbrs (add_edge g (u, v)) w =
     nbrs g w \<union> (if w = u then {v} else {}) \<union> (if w = v then {u} else {})"
proof -
  have 1: "u \<in> set (nodes_of (add_node v (add_node u g)))"
    by (simp add: nodes_add_node)
  have 2: "v \<in> set (nodes_of (set_nbr u v (add_node v (add_node u g))))"
    by (simp add: nodes_add_node nodes_set_nbr)
  show ?thesis
    by (auto simp: add_edge_def nbrs_set_nbr[OF 2] nbrs_set_nbr[OF 1] nbrs_add_node)
qed

lemma nbrs_add_edges_from:
  "nbrs (add_edges_from g es) w = nbrs g w \<union> {v. (w, v) \<in> set es} \<union> {u. (u, w) \<in> set es}"
proof (induction es arbitrary: g)
  case Nil
  show ?case by (simp add: add_edges_from_def)
next
  case (Cons e es)
  obtain u v where e: "e = (u, v)" by (cases e)
  have "add_edges_from g (e # es) = add_edges_from (add_edge g e) es"
    by (simp add: add_edges_from_def)
  then show ?case using Cons.IH[of "add_edge g e"] by (auto simp: e nbrs_add_edge)
qed

section \<open>Removing nodes\<close>

lemma nodes_remove_node: "nodes_of (remove_node g n) = filter (\<lambda>m. m \<noteq> n) (nodes_of g)"
proof (cases "map_of g n")
  case None
  then have "n \<notin> set (nodes_of g)" by (simp add: nodes_of_def map_of_eq_None_iff)
  then have "filter (\<lambda>m. m \<noteq> n) (nodes_of g) = nodes_of g" by (induction g) (auto simp: nodes_of_def)
  with None show ?thesis by (simp add: remove_node_def)
next
  case (Some nbrs)
  have "map fst (filter (\<lambda>e. fst e \<noteq> n) (map (\<lambda>(m, ns). (m, if m \<in> set nbrs then removeAll n ns else ns)) g))
      = filter (\<lambda>m. m \<noteq> n) (map fst g)"
    by (induction g) auto
  with Some show ?thesis by (simp add: remove_node_def nodes_of_def)
qed

lemma nodes_remove_nodes_from:
  "nodes_of (remove_nodes_from g ns) = filter (\<lambda>m. m \<notin> set ns) (nodes_of g)"
proof (induction ns arbitrary: g)
  case Nil
  show ?case by (simp add: remove_nodes_from_def)
next
  case (Cons n ns)
  have "remove_nodes_from g (n # ns) = remove_nodes_from (remove_node g n) ns"
    by (simp add: remove_nodes_from_def)
  then show ?case by (simp add: Cons.IH nodes_remove_node conj_commute)
qed

lemma degree_entry:
  assumes "distinct (nodes_of g)" and "e \<in> set g"
  shows "degree g (fst e) = degree_of e"
proof -
  obtain n ns where e: "e = (n, ns)" by (cases e)
  with assms have "map_of g n = Some ns" by (simp add: nodes_of_def)
  then show ?thesis by (simp add: degree_def e)
qed

lemma low_degree_set:
  assumes "distinct (nodes_of g)"
  shows "set (map fst (filter (\<lambda>(n, deg). deg < d) (degree_view g)))
       = {n \<in> set (nodes_of g). degree g n < d}"
proof -
  have "set (map fst (filter (\<lambda>(n, deg). deg < d) (degree_view g)))
      = fst ` {e \<in> set g. degree_of e < d}"
    unfolding degree_view_def by (induction g) auto
  also have "\<dots> = fst ` {e \<in> set g. degree g (fst e) < d}"
  proof -
    have "{e \<in> set g. degree_of e < d} = {e \<in> set g. degree g (fst e) < d}"
      using degree_entry[OF assms] by auto
    then show ?thesis by simp
  qed
  also have "\<dots> = {n \<in> set (nodes_of g). degree g n < d}"
    unfolding nodes_of_def by force
  finally show ?thesis .
qed

lemma nodes_remove_low_degree:
  assumes "distinct (nodes_of g)"
  shows "nodes_of (remove_low_degree g d) = filter (\<lambda>n. \<not> degree g n < d) (nodes_of g)"
  unfolding remove_low_degree_def nodes_remove_nodes_from low_degree_set[OF assms]
  by (rule filter_cong) auto

section \<open>The aggregation in closed form\<close>

lemma add_investor_apply:
  "add_investor m detail info i x = (if x = i then bump (info i) (m, detail) else info x)"
  by (simp add: add_investor_def bump_def Let_def)

lemma foldl_add_investor:
  "foldl (add_investor m detail) info invs x
     = foldl bump (info x) (replicate (count_list invs x) (m, detail))"
proof (induction invs arbitrary: info)
  case Nil
  show ?case by simp
next
  case (Cons i invs)
  have "foldl (add_investor m detail) info (i # invs) x
      = foldl bump (add_investor m detail info i x) (replicate (count_list invs x) (m, detail))"
    by (simp only: foldl_Cons Cons.IH)
  also have "\<dots> = foldl bump (info x) (replicate (count_list (i # invs) x) (m, detail))"
    unfolding add_investor_apply by (cases "x = i") simp_all
  finally show ?case .
qed

lemma aggregate_row_apply:
  "aggregate_row pyfloat info r x
     = foldl bump (info x)
         (replicate (occurrences r x) (money_of pyfloat (money_raised r), transaction_detail r))"
  by (simp add: aggregate_row_def occurrences_def foldl_add_investor Let_def)

lemma foldl_aggregate_row:
  "foldl (aggregate_row pyfloat) info df x = foldl bump (info x) (contributions pyfloat df x)"
proof (induction df arbitrary: info)
  case Nil
  show ?case by (simp add: contributions_def)
next
  case (Cons r df)
  have "foldl (aggregate_row pyfloat) info (r # df) x
      = foldl bump (aggregate_row pyfloat info r x) (contributions pyfloat df x)"
    by (simp only: foldl_Cons Cons.IH)
  also have "\<dots> = foldl bump (info x)
      (replicate (occurrences r x) (money_of pyfloat (money_raised r), transaction_detail r)
       @ contributions pyfloat df x)"
    by (simp only: aggregate_row_apply foldl_append)
  also have "\<dots> = foldl bump (info x) (contributions pyfloat (r # df) x)"
    by (simp add: contributions_def)
  finally show ?case .
qed

lemma bump_Some:
  "bump (Some d) c = Some \<lparr>rounds = rounds d + 1, money = money d + fst c,
                           transactions = transactions d @ [snd c]\<rparr>"
  by (simp add: bump_def)

lemma foldl_bump_Some:
  "foldl bump (Some d) cs
     = Some \<lparr>rounds = rounds d + int (length cs), money = foldl (+) (money d) (map fst cs),
             transactions = transactions d @ map snd cs\<rparr>"
proof (induction cs arbitrary: d)
  case Nil
  show ?case by simp
next
  case (Cons c cs)
  have "foldl bump (Some d) (c # cs)
      = foldl bump (Some \<lparr>rounds = rounds d + 1, money = money d + fst c,
                           transactions = transactions d @ [snd c]\<rparr>) cs"
    by (simp only: foldl_Cons bump_Some)
  then show ?case by (simp add: Cons.IH)
qed

lemma foldl_bump_None:
  "foldl bump None cs
     = (if cs = [] then None
        else Some \<lparr>rounds = int (length cs), money = foldl (+) 0 (map fst cs),
                   transactions = map snd cs\<rparr>)"
proof (cases cs)
  case Nil
  then show ?thesis by simp
next
  case (Cons c cs')
  have "bump None c = Some \<lparr>rounds = 1, money = 0 + fst c, transactions = [snd c]\<rparr>"
    by (simp add: bump_def)
  then show ?thesis by (simp add: Cons foldl_bump_Some)
qed

lemma aggregate_lookup:
  "aggregate pyfloat df x
     = (if contributions pyfloat df x = [] then None
        else Some \<lparr>rounds = int (length (contributions pyfloat df x)),
                   money = foldl (+) 0 (map fst (contributions pyfloat df x)),
                   transactions = map snd (contributions pyfloat df x)\<rparr>)"
  unfolding aggregate_def foldl_aggregate_row by (simp add: foldl_bump_None)

lemma length_contributions:
  "length (contributions pyfloat df x) = sum_list (map (\<lambda>r. occurrences r x) df)"
  by (induction df) (simp_all add: contributions_def)

section \<open>Trimming, combinations and first-seen order\<close>

lemma strip_strip: "strip (strip s) = strip s"
proof -
  let ?t = "dropWhile isspace s"
  let ?u = "dropWhile isspace (rev ?t)"
  have u: "dropWhile isspace ?u = ?u" by (rule dropWhile_idem)
  have "dropWhile isspace (rev ?u) = rev ?u"
  proof (cases "?u = []")
    case True
    show ?thesis by (simp only: True rev.simps dropWhile.simps)
  next
    case False
    have t: "?t \<noteq> []"
    proof
      assume "?t = []"
      then have "?u = []" by (simp only: rev.simps dropWhile.simps)
      with False show False by (rule notE)
    qed
    have "rev ?t = takeWhile isspace (rev ?t) @ ?u" by simp
    then have "last (rev ?t) = last ?u" using False by (metis last_appendR)
    then have "hd (rev ?u) = hd ?t" using False t by (simp add: hd_rev last_rev)
    moreover have "\<not> isspace (hd ?t)" using t by (rule hd_dropWhile)
    ultimately show ?thesis using False by (simp add: dropWhile_eq_self_iff)
  qed
  then show ?thesis by (simp add: strip_def u)
qed

lemma set_combinations2: "set (combinations2 xs) \<subseteq> set xs \<times> set xs"
  by (induction xs) auto

lemma combinations2_distinct:
  "distinct xs \<Longrightarrow> (a, b) \<in> set (combinations2 xs) \<Longrightarrow> a \<noteq> b"
proof (induction xs)
  case Nil
  then show ?case by simp
next
  case (Cons x xs)
  then show ?case using set_combinations2[of xs] by auto
qed

lemma self_pair_combinations2:
  "((a, a) \<in> set (combinations2 xs)) = (2 \<le> count_list xs a)"
proof (induction xs)
  case Nil
  show ?case by simp
next
  case (Cons x xs)
  have "(a \<in> set xs) = (1 \<le> count_list xs a)"
    using count_list_0_iff[of xs a] by auto
  with Cons show ?case by auto
qed

lemma combinations2_index:
  "combinations2 xs
     = concat (map (\<lambda>i. map (\<lambda>j. (xs ! i, xs ! j)) [i + 1 ..< length xs]) [0 ..< length xs])"
proof (induction xs)
  case Nil
  show ?case by simp
next
  case (Cons x xs)
  have "concat (map (\<lambda>i. concat (map (\<lambda>j. [((x # xs) ! i, (x # xs) ! j)]) [i + 1 ..< length (x # xs)]))
          [0 ..< length (x # xs)])
      = concat (map (\<lambda>y. [(x, y)]) xs)
        @ concat (map (\<lambda>i. concat (map (\<lambda>j. [(xs ! i, xs ! j)]) [i + 1 ..< length xs]))
            [0 ..< length xs])"
    by (rule index_loops_Cons)
  moreover have "concat (map (\<lambda>y. [(x, y)]) xs) = map (Pair x) xs"
    by (induction xs) auto
  moreover have c: "\<And>f ns. concat (map (\<lambda>j. [f j]) ns) = map f ns"
    by (induct_tac ns) auto
  ultimately show ?case using Cons.IH by (simp add: c del: upt_Suc)
qed

lemma foldl_fromkeys:
  "foldl (\<lambda>acc x. if x \<in> set acc then acc else acc @ [x]) acc xs
     = acc @ filter (\<lambda>y. y \<notin> set acc) (first_seen xs)"
proof (induction xs arbitrary: acc)
  case Nil
  show ?case by simp
next
  case (Cons x xs)
  show ?case
  proof (cases "x \<in> set acc")
    case True
    then have "filter (\<lambda>y. y \<notin> set acc) (filter (\<lambda>y. y \<noteq> x) (first_seen xs))
             = filter (\<lambda>y. y \<notin> set acc) (first_seen xs)"
      by (auto intro: filter_cong)
    with True show ?thesis by (simp add: Cons.IH)
  next
    case False
    have "filter (\<lambda>y. y \<notin> set (acc @ [x])) (first_seen xs)
        = filter (\<lambda>y. y \<notin> set acc) (filter (\<lambda>y. y \<noteq> x) (first_seen xs))"
      by (auto intro: filter_cong)
    with False show ?thesis by (simp add: Cons.IH)
  qed
qed

lemma dict_fromkeys_first_seen: "dict_fromkeys xs = first_seen xs"
  by (simp add: dict_fromkeys_def foldl_fromkeys)

lemma set_first_seen: "set (first_seen xs) = set xs"
  by (induction xs) auto

lemma distinct_first_seen: "distinct (first_seen xs)"
  by (induction xs) auto

lemma first_seen_replicate: "first_seen (replicate (Suc n) x) = [x]"
  by (induction n) auto

section \<open>The edge view\<close>

lemma edges_from_sound:
  "(a, b) \<in> set (edges_from seen g) \<Longrightarrow> \<exists>ns. (a, ns) \<in> set g \<and> b \<in> set ns \<and> b \<notin> set seen"
proof (induction g arbitrary: seen)
  case Nil
  then show ?case by simp
next
  case (Cons e g)
  obtain n nbrs where e: "e = (n, nbrs)" by (cases e)
  from Cons.prems consider
      "(a, b) \<in> set (map (Pair n) (filter (\<lambda>v. v \<notin> set seen) nbrs))"
    | "(a, b) \<in> set (edges_from (n # seen) g)"
    by (auto simp: e)
  then show ?case
  proof cases
    case 1
    then show ?thesis by (auto simp: e)
  next
    case 2
    from Cons.IH[OF 2] show ?thesis by auto
  qed
qed

lemma edges_from_snd_not_seen:
  "(a, b) \<in> set (edges_from seen g) \<Longrightarrow> b \<notin> set seen"
  using edges_from_sound by fastforce

lemma edges_from_fst_node:
  "(a, b) \<in> set (edges_from seen g) \<Longrightarrow> a \<in> set (nodes_of g)"
  using edges_from_sound[of a b seen g] by (force simp: nodes_of_def)

lemma distinct_edges_from:
  assumes "distinct (nodes_of g)" and "nbrs_distinct g"
  shows "distinct (map unordered (edges_from seen g))"
  using assms
proof (induction g arbitrary: seen)
  case Nil
  show ?case by simp
next
  case (Cons e g)
  obtain n nbrs where e: "e = (n, nbrs)" by (cases e)
  from Cons.prems have dn: "distinct nbrs" and n: "n \<notin> set (nodes_of g)"
    and dg: "distinct (nodes_of g)" and ng: "nbrs_distinct g"
    by (simp_all add: e nodes_of_def nbrs_distinct_def)
  have head: "distinct (map unordered (map (Pair n) (filter (\<lambda>v. v \<notin> set seen) nbrs)))"
    using dn by (auto simp: distinct_map inj_on_def unordered_def doubleton_eq_iff)
  have tail: "distinct (map unordered (edges_from (n # seen) g))"
    by (rule Cons.IH[OF dg ng])
  have disj: "unordered (n, v) \<noteq> unordered x" if "x \<in> set (edges_from (n # seen) g)" for v x
  proof -
    obtain a b where x: "x = (a, b)" by (cases x)
    from that have "a \<in> set (nodes_of g)" and "b \<notin> set (n # seen)"
      using edges_from_fst_node edges_from_snd_not_seen by (fastforce simp: x)+
    with n have "a \<noteq> n" and "b \<noteq> n" by auto
    then show ?thesis by (auto simp: x unordered_def doubleton_eq_iff)
  qed
  show ?case
    using head tail disj by (auto simp: e)
qed

lemma edges_of_nbrs:
  assumes "distinct (nodes_of g)" and "(a, b) \<in> set (edges_of g)"
  shows "b \<in> nbrs g a"
proof -
  from assms(2) obtain ns where "(a, ns) \<in> set g" and b: "b \<in> set ns"
    unfolding edges_of_def using edges_from_sound by fastforce
  with assms(1) have "map_of g a = Some ns" by (simp add: nodes_of_def)
  with b show ?thesis by (simp add: nbrs_def)
qed

lemma nbrs_built: "nbrs (add_edges_from [] es) w = {v. (w, v) \<in> set es} \<union> {u. (u, w) \<in> set es}"
proof -
  have "nbrs ([] :: 'a graph) w = {}" by (simp add: nbrs_def)
  then show ?thesis by (simp only: nbrs_add_edges_from Un_empty_left)
qed

lemma distinct_built: "distinct (nodes_of (add_edges_from [] es))"
  by (rule distinct_add_edges_from) (simp add: nodes_of_def)

lemma nbrs_distinct_built: "nbrs_distinct (add_edges_from [] es)"
  by (rule nbrs_distinct_add_edges_from) (simp add: nbrs_distinct_def)

lemma edges_built:
  "(a, b) \<in> set (edges_of (add_edges_from [] es)) \<Longrightarrow> (a, b) \<in> set es \<or> (b, a) \<in> set es"
  using edges_of_nbrs[OF distinct_built] nbrs_built by fastforce

section \<open>Pairs of a record\<close>

lemma investors_of_stripped: "map strip (investors_of r) = investors_of r"
  by (simp add: investors_of_def strip_strip)

lemma row_pairs_combinations:
  "row_pairs r = combinations2 (filter (\<lambda>s. s \<noteq> []) (investors_of r))"
proof (cases "investor_names r = []")
  case True
  then show ?thesis by (simp add: row_pairs_def investors_of_def strip_def)
next
  case False
  then show ?thesis by (simp add: row_pairs_def pairs_combinations investors_of_stripped)
qed

section \<open>Pairs without a repeated name\<close>

lemma count_list_filter: "P a \<Longrightarrow> count_list (filter P xs) a = count_list xs a"
  by (induction xs) auto

lemma row_pairs_subset:
  "(a, b) \<in> set (row_pairs r) \<Longrightarrow>
     investor_names r \<noteq> [] \<and> a \<in> set (investors_of r) \<and> b \<in> set (investors_of r)
     \<and> a \<noteq> [] \<and> b \<noteq> []"
proof -
  assume ab: "(a, b) \<in> set (row_pairs r)"
  then have "investor_names r \<noteq> []" by (auto simp: row_pairs_def split: if_splits)
  moreover from ab have "(a, b) \<in> set (combinations2 (filter (\<lambda>s. s \<noteq> []) (investors_of r)))"
    by (simp add: row_pairs_combinations)
  then have "a \<in> set (filter (\<lambda>s. s \<noteq> []) (investors_of r))"
    and "b \<in> set (filter (\<lambda>s. s \<noteq> []) (investors_of r))"
    using set_combinations2 by fastforce+
  ultimately show ?thesis by simp
qed

lemma row_pairs_no_self:
  "distinct (filter (\<lambda>s. s \<noteq> []) (investors_of r)) \<Longrightarrow> (a, b) \<in> set (row_pairs r) \<Longrightarrow> a \<noteq> b"
  unfolding row_pairs_combinations by (rule combinations2_distinct)

section \<open>The degree filter\<close>

lemma nodes_induced: "nodes_of (induced keep g) = filter keep (nodes_of g)"
  by (induction g) (auto simp: induced_def nodes_of_def)

lemma map_of_induced:
  "map_of (induced keep g) v = (if keep v then map_option (filter keep) (map_of g v) else None)"
  by (induction g) (auto simp: induced_def)

lemma nbrs_induced: "nbrs (induced keep g) v = (if keep v then {x \<in> nbrs g v. keep x} else {})"
  by (auto simp: nbrs_def map_of_induced split: option.splits)

lemma symmetric_induced: "symmetric g \<Longrightarrow> symmetric (induced keep g)"
  unfolding symmetric_def nbrs_induced by (fastforce simp: induced_def)

lemma induced_induced: "induced k2 (induced k1 g) = induced (\<lambda>n. k1 n \<and> k2 n) g"
  by (induction g) (auto simp: induced_def)

lemma nbrs_None: "map_of g n = None \<Longrightarrow> nbrs g n = {}"
  by (simp add: nbrs_def)

lemma nbrs_Some: "map_of g n = Some ns \<Longrightarrow> nbrs g n = set ns"
  by (simp add: nbrs_def)

lemma remove_node_induced:
  assumes "symmetric g"
  shows "remove_node g n = induced (\<lambda>m. m \<noteq> n) g"
proof (cases "map_of g n")
  case None
  have absent: "n \<notin> set (snd e)" if "e \<in> set g" for e
    using assms that nbrs_None[OF None] by (auto simp: symmetric_def)
  have keys: "fst e \<noteq> n" if "e \<in> set g" for e
    using None that by (metis map_of_eq_None_iff image_eqI)
  have "induced (\<lambda>m. m \<noteq> n) g = map (\<lambda>e. e) g"
    unfolding induced_def
  proof -
    have f: "filter (\<lambda>e. fst e \<noteq> n) g = g" using keys by (simp add: filter_id_conv)
    have "map (\<lambda>e. (fst e, filter (\<lambda>m. m \<noteq> n) (snd e))) g = map (\<lambda>e. e) g"
    proof (rule map_cong[OF refl])
      fix e assume "e \<in> set g"
      from absent[OF this] have "filter (\<lambda>m. m \<noteq> n) (snd e) = snd e"
        by (auto simp: filter_id_conv)
      then show "(fst e, filter (\<lambda>m. m \<noteq> n) (snd e)) = e" by simp
    qed
    with f show "map (\<lambda>e. (fst e, filter (\<lambda>m. m \<noteq> n) (snd e))) (filter (\<lambda>e. fst e \<noteq> n) g)
               = map (\<lambda>e. e) g"
      by simp
  qed
  with None show ?thesis by (simp add: remove_node_def)
next
  case (Some nbs)
  have absent: "n \<notin> set (snd e)" if "e \<in> set g" and "fst e \<notin> set nbs" for e
    using assms that nbrs_Some[OF Some] by (auto simp: symmetric_def)
  have same: "map (\<lambda>(m, ns). (m, if m \<in> set nbs then removeAll n ns else ns)) g
      = map (\<lambda>e. (fst e, filter (\<lambda>m. m \<noteq> n) (snd e))) g"
  proof (rule map_cong[OF refl])
    fix e assume e: "e \<in> set g"
    obtain m ns where mn: "e = (m, ns)" by (cases e)
    have "(if m \<in> set nbs then removeAll n ns else ns) = filter (\<lambda>m. m \<noteq> n) ns"
    proof (cases "m \<in> set nbs")
      case True
      then show ?thesis by (auto simp: removeAll_filter_not_eq intro: filter_cong)
    next
      case False
      with absent[OF e] have "n \<notin> set ns" by (simp add: mn)
      then have "filter (\<lambda>m. m \<noteq> n) ns = ns" by (auto simp: filter_id_conv)
      with False show ?thesis by simp
    qed
    then show "(case e of (m, ns) \<Rightarrow> (m, if m \<in> set nbs then removeAll n ns else ns))
             = (fst e, filter (\<lambda>m. m \<noteq> n) (snd e))"
      by (simp add: mn)
  qed
  have "remove_node g n
      = filter (\<lambda>e. fst e \<noteq> n) (map (\<lambda>e. (fst e, filter (\<lambda>m. m \<noteq> n) (snd e))) g)"
    unfolding remove_node_def Some option.case same ..
  also have "\<dots> = induced (\<lambda>m. m \<noteq> n) g"
    unfolding induced_def by (induction g) auto
  finally show ?thesis .
qed

lemma remove_nodes_from_induced:
  "symmetric g \<Longrightarrow> remove_nodes_from g ns = induced (\<lambda>m. m \<notin> set ns) g"
proof (induction ns arbitrary: g)
  case Nil
  have "induced (\<lambda>m. True) g = g" by (induction g) (auto simp: induced_def)
  then show ?case by (simp add: remove_nodes_from_def)
next
  case (Cons n ns)
  have "remove_nodes_from g (n # ns) = remove_nodes_from (remove_node g n) ns"
    by (simp add: remove_nodes_from_def)
  also have "\<dots> = remove_nodes_from (induced (\<lambda>m. m \<noteq> n) g) ns"
    by (simp only: remove_node_induced[OF Cons.prems])
  also have "\<dots> = induced (\<lambda>m. m \<notin> set ns) (induced (\<lambda>m. m \<noteq> n) g)"
    by (rule Cons.IH[OF symmetric_induced[OF Cons.prems]])
  also have "\<dots> = induced (\<lambda>m. m \<notin> set (n # ns)) g"
    by (simp add: induced_induced)
  finally show ?case .
qed

lemma induced_cong:
  assumes "symmetric g" and "\<And>n. n \<in> set (nodes_of g) \<Longrightarrow> k1 n = k2 n"
  shows "induced k1 g = induced k2 g"
proof -
  have closed: "v \<in> set (nodes_of g)" if "e \<in> set g" and "v \<in> set (snd e)" for e v
  proof -
    from assms(1) that have "fst e \<in> nbrs g v" by (auto simp: symmetric_def)
    then have "map_of g v \<noteq> None" by (auto simp: nbrs_def split: option.splits)
    then show ?thesis by (simp add: nodes_of_def map_of_eq_None_iff)
  qed
  have 1: "filter (\<lambda>e. k1 (fst e)) g = filter (\<lambda>e. k2 (fst e)) g"
    using assms(2) by (auto simp: nodes_of_def intro!: filter_cong)
  have 2: "map (\<lambda>e. (fst e, filter k1 (snd e))) (filter (\<lambda>e. k2 (fst e)) g)
         = map (\<lambda>e. (fst e, filter k2 (snd e))) (filter (\<lambda>e. k2 (fst e)) g)"
  proof (rule map_cong[OF refl])
    fix e assume "e \<in> set (filter (\<lambda>e. k2 (fst e)) g)"
    then have e: "e \<in> set g" by simp
    have "filter k1 (snd e) = filter k2 (snd e)"
      using closed[OF e] assms(2) by (auto intro!: filter_cong)
    then show "(fst e, filter k1 (snd e)) = (fst e, filter k2 (snd e))" by simp
  qed
  show ?thesis unfolding induced_def 1 2 ..
qed

lemma symmetric_built: "symmetric (add_edges_from [] es)"
  unfolding symmetric_def
proof (intro ballI)
  fix e v assume e: "e \<in> set (add_edges_from [] es)" and v: "v \<in> set (snd e)"
  obtain m ns where mn: "e = (m, ns)" by (cases e)
  from e distinct_built[of es] have "map_of (add_edges_from [] es) m = Some ns"
    by (simp add: mn nodes_of_def)
  then have "nbrs (add_edges_from [] es) m = set ns" by (rule nbrs_Some)
  with v have "v \<in> nbrs (add_edges_from [] es) m" by (simp add: mn)
  then show "fst e \<in> nbrs (add_edges_from [] es) v" by (auto simp: nbrs_built mn)
qed

lemma remove_low_degree_induced:
  "remove_low_degree (add_edges_from [] es) d
     = induced (\<lambda>n. \<not> degree (add_edges_from [] es) n < d) (add_edges_from [] es)"
proof -
  let ?G = "add_edges_from [] es"
  let ?low = "map fst (filter (\<lambda>(n, deg). deg < d) (degree_view ?G))"
  have "remove_low_degree ?G d = induced (\<lambda>m. m \<notin> set ?low) ?G"
    unfolding remove_low_degree_def by (rule remove_nodes_from_induced[OF symmetric_built])
  also have "\<dots> = induced (\<lambda>n. \<not> degree ?G n < d) ?G"
  proof (rule induced_cong[OF symmetric_built])
    fix n assume "n \<in> set (nodes_of ?G)"
    then show "(n \<notin> set ?low) = (\<not> degree ?G n < d)"
      unfolding low_degree_set[OF distinct_built] by simp
  qed
  finally show ?thesis .
qed

text \<open>
  The pipeline runs the degree filter once. Run again on its own output, it would remove
  B from the path as well: one pass is not a fixpoint.
\<close>
lemma degree_filter_on_own_output:
  "remove_low_degree
     (remove_low_degree (add_edges_from [] [(''A'', ''B''), (''B'', ''C'')]) 2) 2 = []"
  by code_simp

text \<open>
  Claim C1. Stage 1 of the structural filter is one pass over the degrees of the graph as
  built: the result is the built graph restricted to the nodes whose degree there is at
  least \<open>min_degree\<close>, and nothing is removed for a degree that only dropped through the
  removals. On the path A-B-C with \<open>min_degree = 2\<close> the node B stays, now without a
  neighbour.
\<close>
theorem degree_filter_single_pass:
  "nodes_of (remove_low_degree (add_edges_from [] es) min_degree)
     = filter (\<lambda>n. \<not> degree (add_edges_from [] es) n < min_degree)
         (nodes_of (add_edges_from [] es))
   \<and> remove_low_degree (add_edges_from [] es) min_degree
     = induced (\<lambda>n. \<not> degree (add_edges_from [] es) n < min_degree) (add_edges_from [] es)
   \<and> remove_low_degree (add_edges_from [] [(''A'', ''B''), (''B'', ''C'')]) 2 = [(''B'', [])]
   \<and> degree (remove_low_degree (add_edges_from [] [(''A'', ''B''), (''B'', ''C'')]) 2) ''B'' = 0"
proof (intro conjI)
  show "nodes_of (remove_low_degree (add_edges_from [] es) min_degree)
     = filter (\<lambda>n. \<not> degree (add_edges_from [] es) n < min_degree)
         (nodes_of (add_edges_from [] es))"
    by (rule nodes_remove_low_degree[OF distinct_built])
  show "remove_low_degree (add_edges_from [] es) min_degree
     = induced (\<lambda>n. \<not> degree (add_edges_from [] es) n < min_degree) (add_edges_from [] es)"
    by (rule remove_low_degree_induced)
  show "remove_low_degree (add_edges_from [] [(''A'', ''B''), (''B'', ''C'')]) 2 = [(''B'', [])]"
    by code_simp
  show "degree (remove_low_degree (add_edges_from [] [(''A'', ''B''), (''B'', ''C'')]) 2) ''B'' = 0"
    by code_simp
qed

text \<open>The path A-B-C-D with \<open>min_degree = 2\<close>: B and C stay, with the edge between them.\<close>
theorem degree_filter_witness:
  "nodes_of (remove_low_degree
      (add_edges_from [] [(''A'', ''B''), (''B'', ''C''), (''C'', ''D'')]) 2) = [''B'', ''C'']
   \<and> remove_low_degree (add_edges_from [] [(''A'', ''B''), (''B'', ''C''), (''C'', ''D'')]) 2
     = [(''B'', [''C'']), (''C'', [''B''])]"
proof -
  have n: "filter (\<lambda>n. \<not> degree (add_edges_from [] [(''A'', ''B''), (''B'', ''C''), (''C'', ''D'')]) n < 2)
         (nodes_of (add_edges_from [] [(''A'', ''B''), (''B'', ''C''), (''C'', ''D'')]))
         = [''B'', ''C'']"
    by code_simp
  have i: "induced (\<lambda>n. \<not> degree (add_edges_from [] [(''A'', ''B''), (''B'', ''C''), (''C'', ''D'')]) n < 2)
         (add_edges_from [] [(''A'', ''B''), (''B'', ''C''), (''C'', ''D'')])
         = [(''B'', [''C'']), (''C'', [''B''])]"
    by code_simp
  from degree_filter_single_pass[of "[(''A'', ''B''), (''B'', ''C''), (''C'', ''D'')]" 2,
         unfolded n i]
  show ?thesis by blast
qed

section \<open>Rounds\<close>

lemma occurrences_pos:
  "(0 < occurrences r x) = (investor_names r \<noteq> [] \<and> x \<in> set (investors_of r))"
  using count_list_0_iff[of "investors_of r" x] by (auto simp: occurrences_def)

lemma rounds_or_aggregate:
  "rounds_or 0 (aggregate pyfloat df) x = int (sum_list (map (\<lambda>r. occurrences r x) df))"
  unfolding length_contributions[of pyfloat df x, symmetric]
  by (cases "contributions pyfloat df x = []") (simp_all add: rounds_or_def aggregate_lookup)

lemma aggregate_None:
  "(aggregate pyfloat df x = None) = (sum_list (map (\<lambda>r. occurrences r x) df) = 0)"
  unfolding length_contributions[of pyfloat df x, symmetric]
  by (cases "contributions pyfloat df x = []") (simp_all add: aggregate_lookup)

lemma sum_occurrences_le1:
  "list_all (\<lambda>r. occurrences r x \<le> 1) df \<Longrightarrow>
     sum_list (map (\<lambda>r. occurrences r x) df)
       = length (filter (\<lambda>r. investor_names r \<noteq> [] \<and> x \<in> set (investors_of r)) df)"
proof (induction df)
  case Nil
  show ?case by simp
next
  case (Cons r df)
  then have le: "occurrences r x \<le> 1" and rest: "list_all (\<lambda>r. occurrences r x \<le> 1) df"
    by simp_all
  show ?case
  proof (cases "investor_names r \<noteq> [] \<and> x \<in> set (investors_of r)")
    case True
    then have "0 < occurrences r x" using occurrences_pos[of r x] by blast
    with le have "occurrences r x = 1" by simp
    moreover have "filter (\<lambda>r. investor_names r \<noteq> [] \<and> x \<in> set (investors_of r)) (r # df)
        = r # filter (\<lambda>r. investor_names r \<noteq> [] \<and> x \<in> set (investors_of r)) df"
      using True by simp
    ultimately show ?thesis using Cons.IH[OF rest] by simp
  next
    case False
    then have "\<not> 0 < occurrences r x" using occurrences_pos[of r x] by blast
    then have "occurrences r x = 0" by simp
    moreover have "filter (\<lambda>r. investor_names r \<noteq> [] \<and> x \<in> set (investors_of r)) (r # df)
        = filter (\<lambda>r. investor_names r \<noteq> [] \<and> x \<in> set (investors_of r)) df"
      using False by simp
    ultimately show ?thesis using Cons.IH[OF rest] by simp
  qed
qed

text \<open>
  Claim C4, as the code has it. The aggregation adds one round for every occurrence of a
  name in a record's trimmed list, so \<open>rounds\<close> is the number of occurrences over the
  filtered records with a non-empty investor field; it is the number of records that
  contain the name when no record lists the name twice.
\<close>
theorem rounds_counts_occurrences:
  "rounds_or 0 (aggregate pyfloat df) x = int (sum_list (map (\<lambda>r. occurrences r x) df))
   \<and> (aggregate pyfloat df x = None) = (sum_list (map (\<lambda>r. occurrences r x) df) = 0)
   \<and> (list_all (\<lambda>r. occurrences r x \<le> 1) df \<longrightarrow>
        rounds_or 0 (aggregate pyfloat df) x
          = int (length (filter (\<lambda>r. investor_names r \<noteq> [] \<and> x \<in> set (investors_of r)) df)))"
  by (simp add: rounds_or_aggregate aggregate_None sum_occurrences_le1)

text \<open>Two records that name B once each: two rounds, two records.\<close>
theorem rounds_witness:
  "list_all (\<lambda>r. occurrences r ''B'' \<le> 1)
     [sample_row ''A, B ,, C'' Missing, sample_row ''B,A'' Missing, sample_row ''C'' Missing]
   \<and> rounds_or 0 (aggregate float_of_digits
        [sample_row ''A, B ,, C'' Missing, sample_row ''B,A'' Missing, sample_row ''C'' Missing])
        ''B'' = 2"
proof -
  have h: "list_all (\<lambda>r. occurrences r ''B'' \<le> 1)
     [sample_row ''A, B ,, C'' Missing, sample_row ''B,A'' Missing, sample_row ''C'' Missing]"
    by code_simp
  have n: "int (length (filter (\<lambda>r. investor_names r \<noteq> [] \<and> ''B'' \<in> set (investors_of r))
     [sample_row ''A, B ,, C'' Missing, sample_row ''B,A'' Missing, sample_row ''C'' Missing])) = 2"
    by code_simp
  from rounds_counts_occurrences[of float_of_digits
         "[sample_row ''A, B ,, C'' Missing, sample_row ''B,A'' Missing, sample_row ''C'' Missing]"
         "''B''"] h n
  show ?thesis by simp
qed

text \<open>
  Against claim C4 as stated: one record that lists A twice gives A two rounds, though
  only one record contains A.
\<close>
theorem rounds_counterexample:
  "rounds_or 0 (aggregate float_of_digits [sample_row ''A, A'' Missing]) ''A'' = 2
   \<and> length (filter (\<lambda>r. ''A'' \<in> set (investors_of r)) [sample_row ''A, A'' Missing]) = 1"
  by code_simp

section \<open>Money\<close>

lemma money_contributions:
  "map fst (contributions pyfloat df x)
     = concat (map (\<lambda>r. replicate (occurrences r x) (money_of pyfloat (money_raised r))) df)"
  by (induction df) (simp_all add: contributions_def)

lemma money_aggregate:
  "aggregate pyfloat df x \<noteq> None \<Longrightarrow>
     money (the (aggregate pyfloat df x))
       = foldl (+) 0 (concat (map (\<lambda>r. replicate (occurrences r x)
                                       (money_of pyfloat (money_raised r))) df))"
  unfolding money_contributions[symmetric]
  by (cases "contributions pyfloat df x = []") (simp_all add: aggregate_lookup)

lemma money_example_total:
  assumes "pf ''50'' = Some (50 :: real)"
  shows "aggregate pf (map (sample_row ''X'') money_example) ''X''
       = Some \<lparr>rounds = 5, money = 150, transactions = replicate 5 ''Seed | Acme | n/a''\<rparr>"
proof -
  have occ: "occurrences (sample_row ''X'' c) ''X'' = 1" for c
    by (simp add: occurrences_def sample_row_def investors_of_def strip_def isspace_def)
  have det: "transaction_detail (sample_row ''X'' c) = ''Seed | Acme | n/a''" for c
    by (simp add: transaction_detail_def sample_row_def fmt_def)
  have mr: "money_raised (sample_row ''X'' c) = c" for c
    by (simp add: sample_row_def)
  have l1: "str_lower (strip ''n/a'') = ''n/a''" and l2: "str_lower (strip '''') = ''''"
    and l3: "str_lower (strip ''50'') = ''50''"
    by code_simp+
  have m1: "money_of pf (Number 100) = 100" and m2: "money_of pf (Text ''n/a'') = 0"
    and m3: "money_of pf (Text '''') = 0" and m4: "money_of pf Missing = 0"
    and m5: "money_of pf (Text ''50'') = 50"
    by (simp_all add: money_of_def isna_def l1 l2 l3 assms)
  have cs: "contributions pf (map (sample_row ''X'') money_example) ''X''
      = [(100, ''Seed | Acme | n/a''), (0, ''Seed | Acme | n/a''), (0, ''Seed | Acme | n/a''),
         (0, ''Seed | Acme | n/a''), (50, ''Seed | Acme | n/a'')]"
    by (simp add: contributions_def money_example_def occ det m1 m2 m3 m4 m5 mr)
  have r5: "replicate 5 ''Seed | Acme | n/a''
      = [''Seed | Acme | n/a'', ''Seed | Acme | n/a'', ''Seed | Acme | n/a'',
         ''Seed | Acme | n/a'', ''Seed | Acme | n/a'']"
    by code_simp
  show ?thesis unfolding aggregate_lookup cs r5 by simp
qed

text \<open>
  Claim C5. The money of a record is \<open>0\<close> for a missing value, for a string that is
  \<open>n/a\<close>, \<open>na\<close> or empty after trimming and lowering, and for a value that \<open>float\<close>
  rejects; otherwise it is the number that \<open>float\<close> returns. An investor's total is the
  sum of the money of its records, in record order. The amounts
  \<open>[100, "n/a", "", None, "50"]\<close> of five records of one investor add up to \<open>150\<close>.
\<close>
theorem money_normalised:
  "money_of pyfloat Missing = 0
   \<and> (str_lower (strip s1) \<in> {''n/a'', ''na'', ''''} \<longrightarrow> money_of pyfloat (Text s1) = 0)
   \<and> (pyfloat s2 = None \<longrightarrow> money_of pyfloat (Text s2) = 0)
   \<and> money_of pyfloat Other = 0
   \<and> (str_lower (strip s3) \<notin> {''n/a'', ''na'', ''''} \<and> pyfloat s3 = Some v \<longrightarrow>
        money_of pyfloat (Text s3) = v)
   \<and> money_of pyfloat (Number v) = v
   \<and> (aggregate pyfloat df x \<noteq> None \<longrightarrow>
        money (the (aggregate pyfloat df x))
          = foldl (+) 0 (concat (map (\<lambda>r. replicate (occurrences r x)
                                          (money_of pyfloat (money_raised r))) df)))
   \<and> (pf ''50'' = Some 50 \<longrightarrow>
        aggregate pf (map (sample_row ''X'') money_example) ''X''
          = Some \<lparr>rounds = 5, money = 150, transactions = replicate 5 ''Seed | Acme | n/a''\<rparr>)"
proof (intro conjI impI)
  show "money_of pyfloat Missing = 0" by (simp add: money_of_def isna_def)
  show "money_of pyfloat Other = 0" by (simp add: money_of_def isna_def)
  show "money_of pyfloat (Number v) = v" by (simp add: money_of_def isna_def)
  show "money_of pyfloat (Text s1) = 0" if "str_lower (strip s1) \<in> {''n/a'', ''na'', ''''}"
    using that by (simp add: money_of_def isna_def)
  show "money_of pyfloat (Text s2) = 0" if "pyfloat s2 = None"
    using that by (simp add: money_of_def isna_def)
  show "money_of pyfloat (Text s3) = v"
    if "str_lower (strip s3) \<notin> {''n/a'', ''na'', ''''} \<and> pyfloat s3 = Some v"
    using that by (simp add: money_of_def isna_def)
  show "money (the (aggregate pyfloat df x))
          = foldl (+) 0 (concat (map (\<lambda>r. replicate (occurrences r x)
                                          (money_of pyfloat (money_raised r))) df))"
    if "aggregate pyfloat df x \<noteq> None"
    using that by (rule money_aggregate)
  show "aggregate pf (map (sample_row ''X'') money_example) ''X''
          = Some \<lparr>rounds = 5, money = 150, transactions = replicate 5 ''Seed | Acme | n/a''\<rparr>"
    if "pf ''50'' = Some 50"
    using that by (rule money_example_total)
qed

text \<open>
  With \<open>float\<close> on strings of decimal digits: \<open>N/A\<close> with blanks and a word give \<open>0\<close>,
  \<open>50\<close> gives \<open>50\<close>, a record of two investors adds its money to both, and the five
  amounts add up to \<open>150\<close>.
\<close>
theorem money_normalised_witness:
  "money_of float_of_digits (Text '' N/A '') = 0
   \<and> money_of float_of_digits (Text ''fifty'') = 0
   \<and> money_of float_of_digits (Text ''50'') = 50
   \<and> money (the (aggregate float_of_digits
        [sample_row ''X, Y'' (Number 7), sample_row ''X'' (Text ''50'')] ''X'')) = 57
   \<and> aggregate float_of_digits (map (sample_row ''X'') money_example) ''X''
       = Some \<lparr>rounds = 5, money = 150, transactions = replicate 5 ''Seed | Acme | n/a''\<rparr>"
proof -
  have h1: "str_lower (strip '' N/A '') \<in> {''n/a'', ''na'', ''''}" by code_simp
  have h2: "float_of_digits ''fifty'' = None" by code_simp
  have h3: "str_lower (strip ''50'') \<notin> {''n/a'', ''na'', ''''} \<and> float_of_digits ''50'' = Some 50"
    by code_simp
  have h4: "aggregate float_of_digits
        [sample_row ''X, Y'' (Number 7), sample_row ''X'' (Text ''50'')] ''X'' \<noteq> None"
    by code_simp
  have h5: "float_of_digits ''50'' = Some 50" by code_simp
  have s: "foldl (+) 0 (concat (map (\<lambda>r. replicate (occurrences r ''X'')
                                          (money_of float_of_digits (money_raised r)))
             [sample_row ''X, Y'' (Number 7), sample_row ''X'' (Text ''50'')])) = (57 :: real)"
    by code_simp
  note T = money_normalised[of float_of_digits "'' N/A ''" "''fifty''" "''50''" 50
         "[sample_row ''X, Y'' (Number 7), sample_row ''X'' (Text ''50'')]" "''X''" float_of_digits]
  have a: "money_of float_of_digits (Text '' N/A '') = 0" using T h1 by blast
  have b: "money_of float_of_digits (Text ''fifty'') = 0" using T h2 by blast
  have c: "money_of float_of_digits (Text ''50'') = 50" using T h3 by blast
  have "money (the (aggregate float_of_digits
        [sample_row ''X, Y'' (Number 7), sample_row ''X'' (Text ''50'')] ''X''))
      = foldl (+) 0 (concat (map (\<lambda>r. replicate (occurrences r ''X'')
                                          (money_of float_of_digits (money_raised r)))
             [sample_row ''X, Y'' (Number 7), sample_row ''X'' (Text ''50'')]))"
    using T h4 by blast
  then have d: "money (the (aggregate float_of_digits
        [sample_row ''X, Y'' (Number 7), sample_row ''X'' (Text ''50'')] ''X'')) = 57"
    by (simp only: s)
  have e: "aggregate float_of_digits (map (sample_row ''X'') money_example) ''X''
       = Some \<lparr>rounds = 5, money = 150, transactions = replicate 5 ''Seed | Acme | n/a''\<rparr>"
    using T h5 by blast
  from a b c d e show ?thesis by blast
qed

section \<open>The empty name\<close>

lemma co_investments_names:
  "(a, b) \<in> set (co_investments df) \<Longrightarrow>
     \<exists>r \<in> set df. investor_names r \<noteq> [] \<and> a \<in> set (investors_of r) \<and> b \<in> set (investors_of r)
        \<and> a \<noteq> [] \<and> b \<noteq> []"
  using row_pairs_subset by (fastforce simp: co_investments_def)

lemma build_graph_nodes:
  assumes "n \<in> set (nodes_of (build_graph df))"
  shows "n \<noteq> [] \<and> (\<exists>r \<in> set df. investor_names r \<noteq> [] \<and> n \<in> set (investors_of r))"
proof -
  from assms have "n \<in> fst ` set (co_investments df) \<or> n \<in> snd ` set (co_investments df)"
    using nodes_add_edges_from[of "[]" "co_investments df"]
    by (auto simp: build_graph_def nodes_of_def)
  then obtain a b where ab: "(a, b) \<in> set (co_investments df)" and n: "n = a \<or> n = b"
    by force
  from co_investments_names[OF ab] n show ?thesis by blast
qed

lemma occurrences_sum_pos:
  assumes "r \<in> set df" and "investor_names r \<noteq> []" and "x \<in> set (investors_of r)"
  shows "0 < sum_list (map (\<lambda>r. occurrences r x) df)"
proof -
  from assms(2,3) have "0 < occurrences r x" using occurrences_pos[of r x] by blast
  moreover have "occurrences r x \<le> sum_list (map (\<lambda>r. occurrences r x) df)"
    using assms(1) by (induction df) auto
  ultimately show ?thesis by simp
qed

lemma sum_occurrences_0:
  "(sum_list (map (\<lambda>r. occurrences r x) df) = 0)
     = list_all (\<lambda>r. investor_names r = [] \<or> x \<notin> set (investors_of r)) df"
proof (induction df)
  case Nil
  show ?case by simp
next
  case (Cons r df)
  have "(occurrences r x = 0) = (investor_names r = [] \<or> x \<notin> set (investors_of r))"
    using occurrences_pos[of r x] by auto
  with Cons.IH show ?case by simp
qed

text \<open>
  What the aggregation does with empty names. It skips a record only when its whole
  investor field is empty; a segment that is empty after trimming is counted under the
  empty name like any other. So the stats map has no entry for the empty name exactly when
  no record with a non-empty field has an empty segment. The pair generator does drop
  empty names: no candidate pair and no node of the built graph is the empty name.
\<close>
lemma empty_name_entry:
  "(aggregate pyfloat df [] = None)
     = list_all (\<lambda>r. investor_names r = [] \<or> [] \<notin> set (investors_of r)) df
   \<and> list_all (\<lambda>e. fst e \<noteq> [] \<and> snd e \<noteq> []) (co_investments df)
   \<and> [] \<notin> set (nodes_of (build_graph df))"
proof (intro conjI)
  show "(aggregate pyfloat df [] = None)
     = list_all (\<lambda>r. investor_names r = [] \<or> [] \<notin> set (investors_of r)) df"
    by (simp only: aggregate_None sum_occurrences_0)
  show "list_all (\<lambda>e. fst e \<noteq> [] \<and> snd e \<noteq> []) (co_investments df)"
    unfolding list_all_iff using co_investments_names by fastforce
  show "[] \<notin> set (nodes_of (build_graph df))"
    using build_graph_nodes by blast
qed

text \<open>
  Claim C7 asks that names that are empty after trimming are dropped during aggregation.
  The code does not do so. The field \<open>A,,B\<close> has an empty segment: the aggregation loop
  creates the entry under the empty name, while the pair generator, which runs over the
  same trimmed list, drops the empty name.
\<close>
theorem empty_name_failing_input:
  "investors_of (sample_row ''A,,B'' Missing) = [''A'', '''', ''B'']
   \<and> aggregate float_of_digits [sample_row ''A,,B'' Missing] ''''
     = Some \<lparr>rounds = 1, money = 0, transactions = [''Seed | Acme | n/a'']\<rparr>
   \<and> row_pairs (sample_row ''A,,B'' Missing) = [(''A'', ''B'')]"
  by code_simp

section \<open>Graph nodes and their stats\<close>

lemma node_has_stats:
  assumes "n \<in> set (nodes_of (build_graph df))"
  shows "\<exists>d. aggregate pyfloat df n = Some d \<and> 1 \<le> rounds d
           \<and> rounds_or 0 (aggregate pyfloat df) n = rounds d
           \<and> rounds_or 1 (aggregate pyfloat df) n = rounds d"
proof -
  from build_graph_nodes[OF assms] obtain r
    where "r \<in> set df" "investor_names r \<noteq> []" "n \<in> set (investors_of r)" by blast
  then have pos: "0 < sum_list (map (\<lambda>r. occurrences r n) df)" by (rule occurrences_sum_pos)
  then have "aggregate pyfloat df n \<noteq> None" by (simp only: aggregate_None)
  then obtain d where d: "aggregate pyfloat df n = Some d" by blast
  then have "rounds_or 0 (aggregate pyfloat df) n = rounds d" by (simp add: rounds_or_def)
  with pos have "1 \<le> rounds d" by (simp add: rounds_or_aggregate)
  with d show ?thesis by (simp add: rounds_or_def)
qed

lemma nodes_remove_subset: "set (nodes_of (remove_nodes_from g ns)) \<subseteq> set (nodes_of g)"
  by (simp add: nodes_remove_nodes_from)

text \<open>
  Claim C10. Every node of the built graph, and so every node that is left after the
  degree filter and after the rounds filter, has an entry in the stats map with at least
  one round: the value read with the default \<open>0\<close> (rounds filter) and the value read with
  the default \<open>1\<close> (node size) are both the entry's own \<open>rounds\<close>.
\<close>
theorem graph_nodes_have_stats:
  "list_all (\<lambda>n. \<exists>d. aggregate pyfloat df n = Some d \<and> 1 \<le> rounds d
                    \<and> rounds_or 0 (aggregate pyfloat df) n = rounds d
                    \<and> rounds_or 1 (aggregate pyfloat df) n = rounds d)
     (nodes_of (build_graph df)
      @ nodes_of (remove_low_degree (build_graph df) min_degree)
      @ nodes_of (remove_low_rounds (aggregate pyfloat df)
                   (remove_low_degree (build_graph df) min_degree) min_rounds))"
proof -
  have 1: "set (nodes_of (remove_low_degree (build_graph df) min_degree))
             \<subseteq> set (nodes_of (build_graph df))"
    unfolding remove_low_degree_def by (rule nodes_remove_subset)
  have 2: "set (nodes_of (remove_low_rounds (aggregate pyfloat df)
                   (remove_low_degree (build_graph df) min_degree) min_rounds))
             \<subseteq> set (nodes_of (remove_low_degree (build_graph df) min_degree))"
    unfolding remove_low_rounds_def by (rule nodes_remove_subset)
  show ?thesis
    unfolding list_all_iff using 1 2 node_has_stats[of _ df pyfloat] by auto
qed

text \<open>Three records: the nodes A, B, C of the graph have 2, 3 and 1 rounds.\<close>
theorem graph_nodes_witness:
  "nodes_of (build_graph
     [sample_row ''A, B ,, C'' Missing, sample_row ''B,A'' Missing, sample_row ''B'' Missing])
     = [''A'', ''B'', ''C'']
   \<and> list_all (\<lambda>n. \<exists>d. aggregate float_of_digits
        [sample_row ''A, B ,, C'' Missing, sample_row ''B,A'' Missing, sample_row ''B'' Missing] n
          = Some d \<and> 1 \<le> rounds d) [''A'', ''B'', ''C'']
   \<and> map (rounds_or 0 (aggregate float_of_digits
        [sample_row ''A, B ,, C'' Missing, sample_row ''B,A'' Missing, sample_row ''B'' Missing]))
        [''A'', ''B'', ''C''] = [2, 3, 1]"
proof -
  let ?df = "[sample_row ''A, B ,, C'' Missing, sample_row ''B,A'' Missing,
              sample_row ''B'' Missing]"
  have n: "nodes_of (build_graph ?df) = [''A'', ''B'', ''C'']" by code_simp
  have r: "map (rounds_or 0 (aggregate float_of_digits ?df)) [''A'', ''B'', ''C''] = [2, 3, 1]"
    by code_simp
  from graph_nodes_have_stats[of float_of_digits ?df 1 1]
  have "list_all (\<lambda>n. \<exists>d. aggregate float_of_digits ?df n = Some d \<and> 1 \<le> rounds d)
          (nodes_of (build_graph ?df))"
    by (simp add: list_all_iff) blast
  with n r show ?thesis by simp
qed

section \<open>The hover log\<close>

text \<open>
  Claim C9. The hover log is the transaction list with every repetition after the first
  dropped, in the order of first occurrence; when more than three distinct entries remain
  it is cut to the first three followed by the marker \<open>...\<close>, and otherwise left as it is.
  Five equal entries give one entry and no marker.
\<close>
theorem hover_log_dedup:
  "dict_fromkeys ts = first_seen ts
   \<and> distinct (dict_fromkeys ts) \<and> set (dict_fromkeys ts) = set ts
   \<and> hover_transactions ts
       = (if 3 < card (set ts) then take 3 (dict_fromkeys ts) @ [''...''] else dict_fromkeys ts)
   \<and> hover_transactions (replicate 5 t) = [t]"
proof (intro conjI)
  show "dict_fromkeys ts = first_seen ts" by (rule dict_fromkeys_first_seen)
  show "distinct (dict_fromkeys ts)" by (simp add: dict_fromkeys_first_seen distinct_first_seen)
  show "set (dict_fromkeys ts) = set ts" by (simp add: dict_fromkeys_first_seen set_first_seen)
  have "length (dict_fromkeys ts) = card (set ts)"
    using distinct_card[OF distinct_first_seen[of ts]]
    by (simp add: dict_fromkeys_first_seen set_first_seen)
  then show "hover_transactions ts
       = (if 3 < card (set ts) then take 3 (dict_fromkeys ts) @ [''...''] else dict_fromkeys ts)"
    by (simp add: hover_transactions_def Let_def)
  have "replicate 5 t = replicate (Suc 4) t" by simp
  then have "dict_fromkeys (replicate 5 t) = [t]"
    by (simp only: dict_fromkeys_first_seen first_seen_replicate)
  then show "hover_transactions (replicate 5 t) = [t]"
    by (simp add: hover_transactions_def)
qed

text \<open>Six entries, five of them distinct: the first three distinct ones and the marker.\<close>
theorem hover_log_witness:
  "hover_transactions [''a'', ''b'', ''a'', ''c'', ''d'', ''e''] = [''a'', ''b'', ''c'', ''...'']
   \<and> hover_transactions [''a'', ''b'', ''a'', ''c'', ''b''] = [''a'', ''b'', ''c'']
   \<and> hover_transactions (replicate 5 ''a | b | c'') = [''a | b | c'']"
proof -
  have 1: "(if 3 < card (set [''a'', ''b'', ''a'', ''c'', ''d'', ''e''])
            then take 3 (dict_fromkeys [''a'', ''b'', ''a'', ''c'', ''d'', ''e'']) @ [''...'']
            else dict_fromkeys [''a'', ''b'', ''a'', ''c'', ''d'', ''e''])
          = [''a'', ''b'', ''c'', ''...'']"
    by code_simp
  have 2: "(if 3 < card (set [''a'', ''b'', ''a'', ''c'', ''b''])
            then take 3 (dict_fromkeys [''a'', ''b'', ''a'', ''c'', ''b'']) @ [''...'']
            else dict_fromkeys [''a'', ''b'', ''a'', ''c'', ''b''])
          = [''a'', ''b'', ''c'']"
    by code_simp
  note A = hover_log_dedup[of "[''a'', ''b'', ''a'', ''c'', ''d'', ''e'']" "''a | b | c''",
             unfolded 1]
  note B = hover_log_dedup[of "[''a'', ''b'', ''a'', ''c'', ''b'']" "''a | b | c''", unfolded 2]
  from A B show ?thesis by blast
qed

section \<open>The record filter and the null guard\<close>

lemma starts_with_iff: "starts_with p s = (\<exists>v. s = p @ v)"
  by (induction p s rule: starts_with.induct) auto

lemma substring_iff: "substring p s = (\<exists>u v. s = u @ p @ v)"
proof (induction s)
  case Nil
  show ?case by auto
next
  case (Cons c cs)
  show ?case
  proof
    assume "substring p (c # cs)"
    then consider "starts_with p (c # cs)" | "substring p cs" by auto
    then show "\<exists>u v. c # cs = u @ p @ v"
    proof cases
      case 1
      then obtain v where "c # cs = p @ v" by (auto simp: starts_with_iff)
      then have "c # cs = [] @ p @ v" by simp
      then show ?thesis by blast
    next
      case 2
      with Cons.IH obtain u v where "cs = u @ p @ v" by auto
      then have "c # cs = (c # u) @ p @ v" by simp
      then show ?thesis by blast
    qed
  next
    assume "\<exists>u v. c # cs = u @ p @ v"
    then obtain u v where uv: "c # cs = u @ p @ v" by blast
    show "substring p (c # cs)"
    proof (cases u)
      case Nil
      with uv have "starts_with p (c # cs)" by (auto simp: starts_with_iff)
      then show ?thesis by simp
    next
      case (Cons d u')
      with uv have "cs = u' @ p @ v" by simp
      with Cons.IH have "substring p cs" by blast
      then show ?thesis by simp
    qed
  qed
qed

lemma ci_substring_iff:
  "ci_substring p s = (\<exists>u w v. s = u @ w @ v \<and> str_lower w = str_lower p)"
proof
  assume "ci_substring p s"
  then obtain u' v' where m: "map lower_char s = u' @ map lower_char p @ v'"
    by (auto simp: ci_substring_def substring_iff str_lower_def)
  let ?w = "take (length p) (drop (length u') s)"
  have "map lower_char ?w = take (length p) (drop (length u') (map lower_char s))"
    by (simp add: take_map drop_map)
  also have "\<dots> = map lower_char p" by (simp add: m)
  finally have w: "str_lower ?w = str_lower p" by (simp add: str_lower_def)
  have "s = take (length u') s @ ?w @ drop (length p) (drop (length u') s)"
    by (simp only: append_take_drop_id)
  with w show "\<exists>u w v. s = u @ w @ v \<and> str_lower w = str_lower p" by blast
next
  assume "\<exists>u w v. s = u @ w @ v \<and> str_lower w = str_lower p"
  then obtain u w v where "s = u @ w @ v" and "str_lower w = str_lower p" by blast
  then have "str_lower s = str_lower u @ str_lower p @ str_lower v"
    by (simp add: str_lower_def)
  then show "ci_substring p s"
    unfolding ci_substring_def substring_iff by blast
qed

lemma literal_dot_pattern: "regex_literal p \<Longrightarrow> dot_pattern p"
  by (auto simp: regex_literal_def dot_pattern_def list_ex_iff)

lemma match_here_literal:
  "regex_literal p \<Longrightarrow> match_here p s = starts_with (str_lower p) (str_lower s)"
proof (induction p s rule: match_here.induct)
  case (1 s)
  show ?case by (simp add: str_lower_def)
next
  case (2 p ps)
  show ?case by (simp add: str_lower_def)
next
  case (3 p ps c cs)
  from "3.prems" have dot: "p \<noteq> CHR ''.''" and rest: "regex_literal ps"
    by (auto simp: regex_literal_def regex_meta_def)
  from "3.IH"[OF rest] dot show ?case by (simp add: str_lower_def)
qed

lemma re_search_literal:
  "regex_literal p \<Longrightarrow> re_search p s = ci_substring p s"
proof (induction s)
  case Nil
  then show ?case
    by (cases p) (simp_all add: ci_substring_def str_lower_def)
next
  case (Cons c cs)
  from Cons show ?case
    using match_here_literal[of p "c # cs"]
    by (simp add: ci_substring_def str_lower_def)
qed

lemma str_contains_literal:
  "regex_literal p \<Longrightarrow>
     str_contains re_compile (Some p) df
       = Inr (filter (\<lambda>r. ci_substring p (investor_names r)) df)"
  by (simp add: str_contains_def literal_dot_pattern re_search_literal)

text \<open>
  Claim C3, as the code has it. A record passes the date filter exactly when its date
  parsed and its year lies in the closed range. The only sentinel is the string \<open>All\<close>:
  with it the date filter is the whole filter. Any other value, \<open>all\<close> included, is
  searched in the investor field; for a value without regular-expression operators the
  records kept are those whose field contains the value up to case, that is, has a part
  that equals the value after lowering.
\<close>
theorem record_filter_spec:
  "year_in_range s e r = (\<exists>y. announced_year r = Some y \<and> s \<le> y \<and> y \<le> e)
   \<and> ci_substring name t = (\<exists>u w v. t = u @ w @ v \<and> str_lower w = str_lower name)
   \<and> record_filter re_compile df s e (Some ''All'') = Inr (filter (year_in_range s e) df)
   \<and> (name \<noteq> ''All'' \<and> regex_literal name \<longrightarrow>
        record_filter re_compile df s e (Some name)
          = Inr (filter (\<lambda>r. year_in_range s e r \<and> ci_substring name (investor_names r)) df))"
proof (intro conjI impI)
  show "year_in_range s e r = (\<exists>y. announced_year r = Some y \<and> s \<le> y \<and> y \<le> e)"
    by (simp add: year_in_range_def split: option.splits)
  show "ci_substring name t = (\<exists>u w v. t = u @ w @ v \<and> str_lower w = str_lower name)"
    by (rule ci_substring_iff)
  show "record_filter re_compile df s e (Some ''All'') = Inr (filter (year_in_range s e) df)"
    by (simp add: record_filter_def)
  show "record_filter re_compile df s e (Some name)
          = Inr (filter (\<lambda>r. year_in_range s e r \<and> ci_substring name (investor_names r)) df)"
    if "name \<noteq> ''All'' \<and> regex_literal name"
    using that by (simp add: record_filter_def str_contains_literal Let_def conj_commute)
qed

text \<open>
  The name \<open>fund\<close> over four records: one in range that contains \<open>Fund\<close>, one out of
  range, one without a date, one in range without the name.
\<close>
theorem record_filter_witness:
  "''fund'' \<noteq> ''All'' \<and> regex_literal ''fund''
   \<and> record_filter (\<lambda>p. None)
        [year_row (Some 2021) ''TechVisionFund, Beta'', year_row (Some 2018) ''Fund One'',
         year_row None ''Fund Two'', year_row (Some 2022) ''Gamma'']
        2020 2022 (Some ''fund'')
      = Inr [year_row (Some 2021) ''TechVisionFund, Beta'']"
proof -
  let ?df = "[year_row (Some 2021) ''TechVisionFund, Beta'', year_row (Some 2018) ''Fund One'',
              year_row None ''Fund Two'', year_row (Some 2022) ''Gamma'']"
  have h: "''fund'' \<noteq> ''All'' \<and> regex_literal ''fund''" by code_simp
  have f: "filter (\<lambda>r. year_in_range 2020 2022 r \<and> ci_substring ''fund'' (investor_names r)) ?df
         = [year_row (Some 2021) ''TechVisionFund, Beta'']"
    by code_simp
  from record_filter_spec[of 2020 2022 "year_row None ''x''" "''fund''" "''x''" "\<lambda>p. None" ?df] h
  have "record_filter (\<lambda>p. None) ?df 2020 2022 (Some ''fund'')
      = Inr (filter (\<lambda>r. year_in_range 2020 2022 r \<and> ci_substring ''fund'' (investor_names r)) ?df)"
    by blast
  with h f show ?thesis by simp
qed

text \<open>
  Against claim C3 as stated. With the lower-case \<open>all\<close> a record in range is dropped,
  because \<open>all\<close> is searched as a name. And the name \<open>Acme Inc.\<close> keeps a record whose
  field does not contain it, because its dot is read as a regular-expression operator.
\<close>
theorem record_filter_counterexample:
  "year_in_range 2020 2022 (year_row (Some 2021) ''Acme, Beta'')
   \<and> record_filter (\<lambda>p. None) [year_row (Some 2021) ''Acme, Beta''] 2020 2022 (Some ''all'')
       = Inr []
   \<and> \<not> ci_substring ''Acme Inc.'' ''Acme Inc, Beta''
   \<and> record_filter (\<lambda>p. None) [year_row (Some 2021) ''Acme Inc, Beta''] 2020 2022
        (Some ''Acme Inc.'')
       = Inr [year_row (Some 2021) ''Acme Inc, Beta'']"
  by code_simp

text \<open>
  Claim C8, as the code has it. The guard of the callback looks at the four numeric
  parameters: when one of them is absent the result is the empty figure, whatever the
  records and the investor parameter are, and that figure has no title. With the four
  present the pipeline runs on the ordered years, also for an absent investor parameter.
\<close>
theorem null_guard:
  "(start_year = None \<or> end_year = None \<or> min_degree = None \<or> min_rounds = None \<longrightarrow>
      update_graph re_compile pyfloat df investor start_year end_year min_degree min_rounds
        = Inr EmptyFigure)
   \<and> figure_title (EmptyFigure :: 'f figure) = None
   \<and> update_graph re_compile pyfloat df investor (Some s) (Some e) (Some d) (Some r)
       = generate_network_figure re_compile pyfloat df (min s e) (max s e) d r investor"
proof (intro conjI impI)
  show "update_graph re_compile pyfloat df investor start_year end_year min_degree min_rounds
        = Inr EmptyFigure"
    if "start_year = None \<or> end_year = None \<or> min_degree = None \<or> min_rounds = None"
    using that by (auto simp: update_graph_def split: option.splits)
  show "figure_title (EmptyFigure :: 'f figure) = None"
    by (simp add: figure_title_def)
  show "update_graph re_compile pyfloat df investor (Some s) (Some e) (Some d) (Some r)
       = generate_network_figure re_compile pyfloat df (min s e) (max s e) d r investor"
    by (simp add: update_graph_def min_def max_def)
qed

text \<open>An absent minimum degree: the empty figure, though the records would give a network.\<close>
theorem null_guard_witness:
  "update_graph (\<lambda>p. None) float_of_digits [sample_row ''A, B'' Missing] (Some ''All'')
     (Some 2020) (Some 2022) None (Some 1) = Inr EmptyFigure
   \<and> update_graph (\<lambda>p. None) float_of_digits [sample_row ''A, B'' Missing] (Some ''All'')
       (Some 2022) (Some 2020) (Some 1) (Some 1)
     = generate_network_figure (\<lambda>p. None) float_of_digits [sample_row ''A, B'' Missing]
         2020 2022 1 1 (Some ''All'')"
proof -
  note T = null_guard[of "Some 2020" "Some 2022" None "Some 1" "\<lambda>p. None" float_of_digits
             "[sample_row ''A, B'' Missing]" "Some ''All''" 2022 2020 1 1]
  have "update_graph (\<lambda>p. None) float_of_digits [sample_row ''A, B'' Missing] (Some ''All'')
     (Some 2020) (Some 2022) None (Some 1) = Inr EmptyFigure"
    using T by blast
  moreover have "update_graph (\<lambda>p. None) float_of_digits [sample_row ''A, B'' Missing]
       (Some ''All'') (Some 2022) (Some 2020) (Some 1) (Some 1)
     = generate_network_figure (\<lambda>p. None) float_of_digits [sample_row ''A, B'' Missing]
         (min 2022 2020) (max 2022 2020) 1 1 (Some ''All'')"
    using T by blast
  ultimately show ?thesis by simp
qed

text \<open>
  Against claim C8 as stated: an absent investor parameter is not guarded (the search
  raises TypeError), and the figure returned for an absent number carries no reason.
\<close>
theorem null_guard_counterexample:
  "update_graph (\<lambda>p. None) float_of_digits [] None (Some 2020) (Some 2022) (Some 1) (Some 1)
     = Inl TypeError
   \<and> update_graph (\<lambda>p. None) float_of_digits [] (Some ''All'') None (Some 2022) (Some 1) (Some 1)
     = Inr EmptyFigure
   \<and> figure_title (EmptyFigure :: real figure) = None
   \<and> figure_title (TitleOnly ''No investors meet the minimum requirements for this time period.''
        :: real figure) \<noteq> None"
  by code_simp

section \<open>Edges of the built graph, pairs and self-loops\<close>

lemma unordered_swap: "unordered (a, b) = unordered (b, a)"
  by (auto simp: unordered_def)

lemma edges_from_complete:
  assumes "distinct (nodes_of g)" and "(a, ns) \<in> set g" and "b \<in> set ns"
    and "a \<notin> set seen" and "b \<notin> set seen"
    and "b = a \<or> (\<exists>ms. (b, ms) \<in> set g \<and> a \<in> set ms)"
  shows "(a, b) \<in> set (edges_from seen g) \<or> (b, a) \<in> set (edges_from seen g)"
  using assms
proof (induction g arbitrary: seen)
  case Nil
  then show ?case by simp
next
  case (Cons e g)
  obtain n nbs where e: "e = (n, nbs)" by (cases e)
  from Cons.prems(1) have n: "n \<notin> fst ` set g" and dg: "distinct (nodes_of g)"
    by (simp_all add: e nodes_of_def)
  show ?case
  proof (cases "a = n")
    case True
    with Cons.prems(2) n have "ns = nbs" by (force simp: e)
    with True Cons.prems(3,5) show ?thesis by (simp add: e)
  next
    case an: False
    with Cons.prems(2) have ag: "(a, ns) \<in> set g" by (simp add: e)
    show ?thesis
    proof (cases "b = n")
      case True
      with an Cons.prems(6) obtain ms where "(n, ms) \<in> set (e # g)" and ams: "a \<in> set ms"
        by auto
      with n have "ms = nbs" by (force simp: e)
      with True ams Cons.prems(4) show ?thesis by (simp add: e)
    next
      case bn: False
      have 4: "a \<notin> set (n # seen)" using an Cons.prems(4) by simp
      have 5: "b \<notin> set (n # seen)" using bn Cons.prems(5) by simp
      have 6: "b = a \<or> (\<exists>ms. (b, ms) \<in> set g \<and> a \<in> set ms)"
        using bn Cons.prems(6) by (auto simp: e)
      from Cons.IH[OF dg ag Cons.prems(3) 4 5 6] show ?thesis by (auto simp: e)
    qed
  qed
qed

lemma nbrs_entry:
  "b \<in> nbrs g a \<Longrightarrow> \<exists>ns. (a, ns) \<in> set g \<and> b \<in> set ns"
  by (auto simp: nbrs_def split: option.splits dest: map_of_SomeD)

lemma edges_built_complete:
  assumes "(u, v) \<in> set es"
  shows "(u, v) \<in> set (edges_of (add_edges_from [] es))
       \<or> (v, u) \<in> set (edges_of (add_edges_from [] es))"
proof -
  let ?G = "add_edges_from [] es"
  from assms have "v \<in> nbrs ?G u" and "u \<in> nbrs ?G v" by (auto simp: nbrs_built)
  then obtain ns ms where 1: "(u, ns) \<in> set ?G" "v \<in> set ns"
    and 2: "(v, ms) \<in> set ?G" "u \<in> set ms"
    using nbrs_entry by metis
  then have "v = u \<or> (\<exists>ms. (v, ms) \<in> set ?G \<and> u \<in> set ms)" by blast
  from edges_from_complete[OF distinct_built 1 _ _ this, of "[]"]
  show ?thesis by (simp add: edges_of_def)
qed

lemma edges_built_unordered:
  "set (map unordered (edges_of (add_edges_from [] es))) = set (map unordered es)"
proof (intro set_eqI iffI)
  fix x assume "x \<in> set (map unordered (edges_of (add_edges_from [] es)))"
  then obtain a b where ab: "(a, b) \<in> set (edges_of (add_edges_from [] es))"
    and x: "x = unordered (a, b)" by auto
  from edges_built[OF ab] consider "(a, b) \<in> set es" | "(b, a) \<in> set es" by blast
  then show "x \<in> set (map unordered es)"
  proof cases
    case 1
    then have "unordered (a, b) \<in> unordered ` set es" by (rule imageI)
    with x show ?thesis by simp
  next
    case 2
    then have "unordered (b, a) \<in> unordered ` set es" by (rule imageI)
    with x unordered_swap[of a b] show ?thesis by simp
  qed
next
  fix x assume "x \<in> set (map unordered es)"
  then obtain u v where uv: "(u, v) \<in> set es" and x: "x = unordered (u, v)" by auto
  from edges_built_complete[OF uv]
  consider "(u, v) \<in> set (edges_of (add_edges_from [] es))"
    | "(v, u) \<in> set (edges_of (add_edges_from [] es))" by blast
  then show "x \<in> set (map unordered (edges_of (add_edges_from [] es)))"
  proof cases
    case 1
    then have "unordered (u, v) \<in> unordered ` set (edges_of (add_edges_from [] es))"
      by (rule imageI)
    with x show ?thesis by simp
  next
    case 2
    then have "unordered (v, u) \<in> unordered ` set (edges_of (add_edges_from [] es))"
      by (rule imageI)
    with x unordered_swap[of u v] show ?thesis by simp
  qed
qed

lemma self_loop_built:
  "((a, a) \<in> set (edges_of (add_edges_from [] es))) = ((a, a) \<in> set es)"
  using edges_built[of a a es] edges_built_complete[of a a es] by blast

lemma self_pair_row:
  "((a, a) \<in> set (row_pairs r)) = (a \<noteq> [] \<and> 2 \<le> count_list (investors_of r) a)"
proof (cases "a = []")
  case True
  then have "count_list (filter (\<lambda>s. s \<noteq> []) (investors_of r)) a = 0"
    by (simp add: count_list_0_iff)
  with True show ?thesis by (simp add: row_pairs_combinations self_pair_combinations2)
next
  case False
  then show ?thesis
    by (simp add: row_pairs_combinations self_pair_combinations2 count_list_filter)
qed

lemma self_pair_records:
  "((a, a) \<in> set (co_investments df))
     = (a \<noteq> [] \<and> list_ex (\<lambda>r. 2 \<le> count_list (investors_of r) a) df)"
  by (auto simp: co_investments_def self_pair_row list_ex_iff)

text \<open>
  Claim C6. For a record whose trimmed investor list has \<open>k\<close> non-empty names, the pair
  generator yields the pairs \<open>(names[i], names[j])\<close> with \<open>i < j\<close> in list order, which
  are \<open>k (k - 1) / 2\<close> pairs. In the graph built from all records no two edges stand for
  the same unordered pair, and the edges stand for exactly the unordered pairs that the
  records yield.
\<close>
theorem pairs_per_record_and_simple_graph:
  "row_pairs r =
     (let names = filter (\<lambda>s. s \<noteq> []) (investors_of r)
      in concat (map (\<lambda>i. map (\<lambda>j. (names ! i, names ! j)) [i + 1 ..< length names])
                  [0 ..< length names]))
   \<and> length (row_pairs r) =
       length (filter (\<lambda>s. s \<noteq> []) (investors_of r))
       * (length (filter (\<lambda>s. s \<noteq> []) (investors_of r)) - 1) div 2
   \<and> distinct (map unordered (edges_of (build_graph df)))
   \<and> set (map unordered (edges_of (build_graph df)))
       = set (map unordered (concat (map row_pairs df)))"
proof (intro conjI)
  show "row_pairs r =
     (let names = filter (\<lambda>s. s \<noteq> []) (investors_of r)
      in concat (map (\<lambda>i. map (\<lambda>j. (names ! i, names ! j)) [i + 1 ..< length names])
                  [0 ..< length names]))"
    unfolding Let_def row_pairs_combinations by (rule combinations2_index)
  show "length (row_pairs r) =
       length (filter (\<lambda>s. s \<noteq> []) (investors_of r))
       * (length (filter (\<lambda>s. s \<noteq> []) (investors_of r)) - 1) div 2"
    unfolding row_pairs_combinations by (rule length_combinations2)
  show "distinct (map unordered (edges_of (build_graph df)))"
    unfolding edges_of_def build_graph_def
    by (rule distinct_edges_from[OF distinct_built nbrs_distinct_built])
  show "set (map unordered (edges_of (build_graph df)))
       = set (map unordered (concat (map row_pairs df)))"
    unfolding build_graph_def co_investments_def by (rule edges_built_unordered)
qed

text \<open>
  The record \<open>A, B ,, C\<close> has three non-empty names and gives three pairs; with the record
  \<open>B,A\<close> the graph still has three edges.
\<close>
theorem pairs_per_record_witness:
  "row_pairs (sample_row ''A, B ,, C'' Missing) = [(''A'', ''B''), (''A'', ''C''), (''B'', ''C'')]
   \<and> length (row_pairs (sample_row ''A, B ,, C'' Missing)) = 3 * (3 - 1) div 2
   \<and> distinct (map unordered (edges_of (build_graph
        [sample_row ''A, B ,, C'' Missing, sample_row ''B,A'' Missing])))
   \<and> edges_of (build_graph [sample_row ''A, B ,, C'' Missing, sample_row ''B,A'' Missing])
       = [(''A'', ''B''), (''A'', ''C''), (''B'', ''C'')]"
proof -
  have names: "filter (\<lambda>s. s \<noteq> []) (investors_of (sample_row ''A, B ,, C'' Missing))
             = [''A'', ''B'', ''C'']"
    by code_simp
  have loops: "concat (map (\<lambda>i. map (\<lambda>j. ([''A'', ''B'', ''C''] ! i, [''A'', ''B'', ''C''] ! j))
                               [i + 1 ..< length [''A'', ''B'', ''C'']])
                  [0 ..< length [''A'', ''B'', ''C'']])
             = [(''A'', ''B''), (''A'', ''C''), (''B'', ''C'')]"
    by code_simp
  have edges: "edges_of (build_graph [sample_row ''A, B ,, C'' Missing, sample_row ''B,A'' Missing])
       = [(''A'', ''B''), (''A'', ''C''), (''B'', ''C'')]"
    by code_simp
  note inst = pairs_per_record_and_simple_graph
      [of "sample_row ''A, B ,, C'' Missing"
          "[sample_row ''A, B ,, C'' Missing, sample_row ''B,A'' Missing]",
       unfolded Let_def names loops]
  from inst edges show ?thesis by simp
qed

text \<open>
  Claim C2, as the code has it. The pair generator produces a pair \<open>(a, a)\<close> exactly when
  the non-empty name \<open>a\<close> occurs at least twice in the trimmed list, and the built graph
  has the self-loop at \<open>a\<close> exactly when some record lists \<open>a\<close> at least twice. When the
  non-empty trimmed names of every record are pairwise distinct, no candidate pair and no
  edge of the built graph joins a name with itself.
\<close>
theorem self_pair_iff_duplicate_name:
  "((a, a) \<in> set (create_co_investment_pairs investors))
     = (a \<noteq> [] \<and> 2 \<le> count_list (map strip investors) a)
   \<and> ((a, a) \<in> set (edges_of (build_graph df)))
       = (a \<noteq> [] \<and> list_ex (\<lambda>r. 2 \<le> count_list (investors_of r) a) df)
   \<and> (list_all (\<lambda>r. distinct (filter (\<lambda>s. s \<noteq> []) (investors_of r))) df \<longrightarrow>
        list_all (\<lambda>e. fst e \<noteq> snd e) (concat (map row_pairs df))
        \<and> list_all (\<lambda>e. fst e \<noteq> snd e) (edges_of (build_graph df)))"
proof (intro conjI impI)
  show "((a, a) \<in> set (create_co_investment_pairs investors))
     = (a \<noteq> [] \<and> 2 \<le> count_list (map strip investors) a)"
  proof (cases "a = []")
    case True
    have "(a, a) \<notin> set (combinations2 (filter (\<lambda>s. s \<noteq> []) (map strip investors)))"
      using set_combinations2[of "filter (\<lambda>s. s \<noteq> []) (map strip investors)"] True by auto
    with True show ?thesis by (simp add: pairs_combinations)
  next
    case False
    then show ?thesis
      by (simp add: pairs_combinations self_pair_combinations2 count_list_filter)
  qed
  show "((a, a) \<in> set (edges_of (build_graph df)))
       = (a \<noteq> [] \<and> list_ex (\<lambda>r. 2 \<le> count_list (investors_of r) a) df)"
    unfolding build_graph_def self_loop_built by (rule self_pair_records)
next
  assume d: "list_all (\<lambda>r. distinct (filter (\<lambda>s. s \<noteq> []) (investors_of r))) df"
  have pairs: "a \<noteq> b" if "(a, b) \<in> set (co_investments df)" for a b
  proof -
    from that obtain r where "r \<in> set df" and "(a, b) \<in> set (row_pairs r)"
      by (auto simp: co_investments_def)
    with d show ?thesis using row_pairs_no_self by (fastforce simp: list_all_iff)
  qed
  then show "list_all (\<lambda>e. fst e \<noteq> snd e) (concat (map row_pairs df))"
    unfolding co_investments_def by (auto simp: list_all_iff)
  show "list_all (\<lambda>e. fst e \<noteq> snd e) (edges_of (build_graph df))"
    unfolding list_all_iff build_graph_def
  proof
    fix e assume e: "e \<in> set (edges_of (add_edges_from [] (co_investments df)))"
    obtain a b where ab: "e = (a, b)" by (cases e)
    from e edges_built[of a b "co_investments df"]
    have "(a, b) \<in> set (co_investments df) \<or> (b, a) \<in> set (co_investments df)"
      by (simp add: ab)
    with pairs show "fst e \<noteq> snd e" by (auto simp: ab)
  qed
qed

text \<open>
  Two records without a repeated name give three edges, none a self-loop; a record that
  lists A twice gives the self-loop at A.
\<close>
theorem self_pair_witness:
  "list_all (\<lambda>r. distinct (filter (\<lambda>s. s \<noteq> []) (investors_of r)))
     [sample_row ''A, B ,, C'' Missing, sample_row ''B,A'' Missing]
   \<and> list_all (\<lambda>e. fst e \<noteq> snd e)
       (edges_of (build_graph [sample_row ''A, B ,, C'' Missing, sample_row ''B,A'' Missing]))
   \<and> (''A'', ''A'') \<notin> set (create_co_investment_pairs [''A'', '' B'', '''', ''C''])
   \<and> (''A'', ''A'') \<in> set (edges_of (build_graph
        [sample_row ''B, C'' Missing, sample_row ''A, B, A'' Missing]))"
proof -
  have h: "list_all (\<lambda>r. distinct (filter (\<lambda>s. s \<noteq> []) (investors_of r)))
     [sample_row ''A, B ,, C'' Missing, sample_row ''B,A'' Missing]"
    by code_simp
  have c: "\<not> (''A'' \<noteq> [] \<and> 2 \<le> count_list (map strip [''A'', '' B'', '''', ''C'']) ''A'')"
    by code_simp
  have l: "''A'' \<noteq> [] \<and> list_ex (\<lambda>r. 2 \<le> count_list (investors_of r) ''A'')
             [sample_row ''B, C'' Missing, sample_row ''A, B, A'' Missing]"
    by code_simp
  from self_pair_iff_duplicate_name
         [of "''A''" "[''A'', '' B'', '''', ''C'']"
             "[sample_row ''A, B ,, C'' Missing, sample_row ''B,A'' Missing]"] h c
  have 1: "list_all (\<lambda>e. fst e \<noteq> snd e)
       (edges_of (build_graph [sample_row ''A, B ,, C'' Missing, sample_row ''B,A'' Missing]))
     \<and> (''A'', ''A'') \<notin> set (create_co_investment_pairs [''A'', '' B'', '''', ''C''])"
    by blast
  from self_pair_iff_duplicate_name
         [of "''A''" "[]" "[sample_row ''B, C'' Missing, sample_row ''A, B, A'' Missing]"] l
  have 2: "(''A'', ''A'') \<in> set (edges_of (build_graph
        [sample_row ''B, C'' Missing, sample_row ''A, B, A'' Missing]))"
    by blast
  from h 1 2 show ?thesis by blast
qed

text \<open>
  Against claim C2 as stated: a record that lists \<open>A\<close> twice yields the pair \<open>(A, A)\<close>,
  and the built graph has the self-loop.
\<close>
theorem self_pair_counterexample:
  "create_co_investment_pairs [''A'', ''A''] = [(''A'', ''A'')]
   \<and> build_graph [sample_row ''A, A'' Missing] = [(''A'', [''A''])]
   \<and> edges_of (build_graph [sample_row ''A, A'' Missing]) = [(''A'', ''A'')]"
  by code_simp

end
